theory Spec2Isabelle
  imports Main "HOL-Library.Word" "HOL-Library.Sublist"
begin

section \<open>The progress container of uiprogress (progress.go)\<close>

text \<open>
  A shallow embedding of \<^verbatim>\<open>progress.go\<close>.  Go's \<^verbatim>\<open>int\<close> and
  \<^verbatim>\<open>time.Duration\<close> are 64-bit two's complement words: \<open>+\<close> and \<open>-\<close> wrap,
  comparisons are the signed ones (\<open><s\<close>), \<open>sint\<close> reads the value.
\<close>

subsection \<open>Data\<close>

type_synonym goint = "64 word"
type_synonym duration = "64 word"

text \<open>\<^verbatim>\<open>*os.File\<close>: only the descriptor matters here. \<^verbatim>\<open>io.Writer\<close>: a file, or any
  other writer, told apart by an identity.\<close>

datatype os_File = File (Fd: nat)

datatype io_Writer = FileWriter os_File | OtherWriter nat

datatype error = Error string

text \<open>What \<^verbatim>\<open>term.GetSize(fd)\<close> answers: \<^verbatim>\<open>(width, height, err)\<close>; \<open>None\<close> is
  \<^verbatim>\<open>err == nil\<close>.  The terminal is an environment: a function from descriptors to
  answers, which may differ from one tick to the next.\<close>

type_synonym term_size = "goint \<times> goint \<times> error option"
type_synonym terminal = "nat \<Rightarrow> term_size"

text \<open>The package-level variables.  \<^verbatim>\<open>Out\<close> and \<^verbatim>\<open>RefreshInterval\<close> are declared in
  \<^verbatim>\<open>progress.go\<close>; \<^verbatim>\<open>Width\<close> is declared in another file of the package and is
  taken as it stands at the time of the call.\<close>

record Pkg =
  pkg_Out :: os_File
  pkg_Width :: goint
  pkg_RefreshInterval :: duration

text \<open>What a decorator can read of the \<^verbatim>\<open>*Bar\<close> it is given.  A decorator is a Go
  closure: besides returning a string it may read and change state of its own, the
  world \<open>'w\<close>, which is threaded through every call.\<close>

record BarSnapshot =
  snap_Total :: goint
  snap_current :: goint
  snap_Width :: goint

type_synonym 'w DecoratorFunc = "BarSnapshot \<Rightarrow> 'w \<Rightarrow> string \<times> 'w"

text \<open>Modelled from the spec: \<^verbatim>\<open>Bar\<close> is declared in another file of the package.
  These are the fields \<^verbatim>\<open>progress.go\<close> uses (\<^verbatim>\<open>Width\<close>, \<^verbatim>\<open>prependFuncs\<close>,
  \<^verbatim>\<open>appendFuncs\<close>) and the spec's data model names (\<open>total\<close>, \<open>current\<close>, \<open>width\<close>,
  the two ordered lists of decorators).\<close>

record 'w Bar =
  Bar_Total :: goint
  Bar_current :: goint
  Bar_Width :: goint
  Bar_prependFuncs :: "'w DecoratorFunc list"
  Bar_appendFuncs :: "'w DecoratorFunc list"

definition snapshot :: "'w Bar \<Rightarrow> BarSnapshot" where
  "snapshot b = \<lparr>snap_Total = Bar_Total b, snap_current = Bar_current b, snap_Width = Bar_Width b\<rparr>"

text \<open>\<^verbatim>\<open>uilive.Writer\<close>, the line-buffered writer of another package: lines written to
  it are buffered until \<^verbatim>\<open>Flush\<close>, which hands the buffered lines to \<^verbatim>\<open>Out\<close> as one
  frame.  \<open>lw_flushed\<close> records every \<^verbatim>\<open>Flush\<close> call: the destination and the frame.\<close>

record uilive_Writer =
  lw_Out :: io_Writer
  lw_buf :: "string list"
  lw_flushed :: "(io_Writer \<times> string list) list"

definition Fprintln :: "uilive_Writer \<Rightarrow> string \<Rightarrow> uilive_Writer" where
  "Fprintln w s = w\<lparr>lw_buf := lw_buf w @ [s]\<rparr>"

definition Flush :: "uilive_Writer \<Rightarrow> uilive_Writer" where
  "Flush w = w\<lparr>lw_flushed := lw_flushed w @ [(lw_Out w, lw_buf w)], lw_buf := []\<rparr>"

text \<open>\<^verbatim>\<open>Progress\<close>.  \<^verbatim>\<open>Bars\<close> is a slice of pointers: addresses into the store of bars.
  The channel \<^verbatim>\<open>tdone\<close> and the lock belong to the loop, modelled further below.\<close>

type_synonym addr = nat

record Progress =
  Out :: io_Writer
  Width :: goint
  Bars :: "addr list"
  RefreshInterval :: duration
  lw :: uilive_Writer

text \<open>The state an operation works on: the container, the store of bars with its next
  free address, and the world of the decorators.\<close>

record 'w state =
  prog :: Progress
  heap :: "addr \<Rightarrow> 'w Bar"
  nxt :: addr
  world :: 'w

subsection \<open>Operations\<close>

definition getTerminalWidth :: "terminal \<Rightarrow> Pkg \<Rightarrow> goint" where
  "getTerminalWidth tm g =
     (case tm (Fd (pkg_Out g)) of (width, _, err) \<Rightarrow>
        if err = None \<and> 0 <s width then width else pkg_Width g)"

definition New :: "Pkg \<Rightarrow> Progress" where
  "New g = \<lparr>Out = FileWriter (pkg_Out g), Width = pkg_Width g, Bars = [],
            RefreshInterval = pkg_RefreshInterval g,
            lw = \<lparr>lw_Out = FileWriter (pkg_Out g), lw_buf = [], lw_flushed = []\<rparr>\<rparr>"

definition SetOut :: "io_Writer \<Rightarrow> 'w state \<Rightarrow> 'w state" where
  "SetOut o' st = st\<lparr>prog := (prog st)\<lparr>Out := o', lw := (lw (prog st))\<lparr>lw_Out := o'\<rparr>\<rparr>\<rparr>"

definition SetRefreshInterval :: "duration \<Rightarrow> 'w state \<Rightarrow> 'w state" where
  "SetRefreshInterval interval st = st\<lparr>prog := (prog st)\<lparr>RefreshInterval := interval\<rparr>\<rparr>"

text \<open>Modelled from the spec: \<^verbatim>\<open>NewBar\<close> is declared in another file of the package.
  The spec says of a bar's total that it is "fixed at creation", and of \<^verbatim>\<open>add_bar(total)\<close>
  that it "constructs a Bar": the new bar has the given total.  What its other fields
  start as is not said; they are those of the parameter \<open>dflt\<close>.\<close>

definition NewBar :: "'w Bar \<Rightarrow> goint \<Rightarrow> 'w Bar" where
  "NewBar dflt total' = dflt\<lparr>Bar_Total := total'\<rparr>"

text \<open>\<^verbatim>\<open>AddBar\<close>: the new bar lives at the next free address of the store, the pointer
  the caller gets back.\<close>

definition AddBar :: "'w Bar \<Rightarrow> goint \<Rightarrow> 'w state \<Rightarrow> addr \<times> 'w state" where
  "AddBar dflt total' st =
     (let bar = nxt st;
          h = (heap st)(bar := NewBar dflt total');
          h = h(bar := (h bar)\<lparr>Bar_Width := Width (prog st)\<rparr>)
      in (bar, st\<lparr>prog := (prog st)\<lparr>Bars := Bars (prog st) @ [bar]\<rparr>,
                   heap := h, nxt := Suc bar\<rparr>))"

text \<open>The two loops of \<^verbatim>\<open>print\<close> that add up the decorators' widths:
  \<^verbatim>\<open>decoratorsWidth += len(f(bar)) + 1\<close> for each function in turn.\<close>

fun decoratorsWidth_loop ::
  "'w DecoratorFunc list \<Rightarrow> BarSnapshot \<Rightarrow> goint \<times> 'w \<Rightarrow> goint \<times> 'w" where
  "decoratorsWidth_loop [] b (dw, w) = (dw, w)"
| "decoratorsWidth_loop (f # fs) b (dw, w) =
     (case f b w of (s, w') \<Rightarrow> decoratorsWidth_loop fs b (dw + (of_nat (length s) + 1), w'))"

text \<open>The body of the loop over the bars.  \<^verbatim>\<open>Bar.String\<close> is declared in another file
  and is a parameter: any method that reads the bar, may call its decorators, and
  returns the line.\<close>

definition print_bar ::
  "('w Bar \<Rightarrow> 'w \<Rightarrow> string \<times> 'w) \<Rightarrow> goint \<Rightarrow> addr \<Rightarrow> 'w state \<Rightarrow> 'w state" where
  "print_bar String termWidth a st =
     (let bar = heap st a;
          prependFuncs = Bar_prependFuncs bar;
          appendFuncs = Bar_appendFuncs bar;
          (dw1, w1) = decoratorsWidth_loop prependFuncs (snapshot bar) (0, world st);
          (decoratorsWidth, w2) = decoratorsWidth_loop appendFuncs (snapshot bar) (dw1, w1);
          barWidth = termWidth - decoratorsWidth;
          barWidth = (if barWidth <s 10 then 10 else barWidth);
          bar' = bar\<lparr>Bar_Width := barWidth\<rparr>;
          (line, w3) = String bar' w2
      in st\<lparr>prog := (prog st)\<lparr>lw := Fprintln (lw (prog st)) line\<rparr>,
            heap := (heap st)(a := bar'),
            world := w3\<rparr>)"

fun print_loop ::
  "('w Bar \<Rightarrow> 'w \<Rightarrow> string \<times> 'w) \<Rightarrow> goint \<Rightarrow> addr list \<Rightarrow> 'w state \<Rightarrow> 'w state" where
  "print_loop String termWidth [] st = st"
| "print_loop String termWidth (a # as) st =
     print_loop String termWidth as (print_bar String termWidth a st)"

definition print ::
  "('w Bar \<Rightarrow> 'w \<Rightarrow> string \<times> 'w) \<Rightarrow> terminal \<Rightarrow> Pkg \<Rightarrow> 'w state \<Rightarrow> 'w state" where
  "print String tm g st =
     (let termWidth = getTerminalWidth tm g;
          st' = print_loop String termWidth (Bars (prog st)) st
      in st'\<lparr>prog := (prog st')\<lparr>lw := Flush (lw (prog st'))\<rparr>\<rparr>)"


subsection \<open>The loop and the stop handshake\<close>

text \<open>
  \<^verbatim>\<open>Listen\<close> runs in a goroutine of its own (\<^verbatim>\<open>Start\<close> is \<^verbatim>\<open>go p.Listen()\<close>), \<^verbatim>\<open>Stop\<close>
  in the caller's, and other goroutines may call the setters and \<^verbatim>\<open>AddBar\<close> at any
  moment.  The program is a transition system: a state holds where each of the two
  goroutines stands, and an event is one atomic step of one of them.  Every method
  that takes the container's lock holds it for its whole body, so each is one step.
  The channel \<^verbatim>\<open>tdone\<close> is unbuffered: the send in \<^verbatim>\<open>Stop\<close> completes only together
  with the receive in the \<^verbatim>\<open>select\<close> of \<^verbatim>\<open>Listen\<close> (one event, \<open>Rendezvous\<close>), and the
  receive in \<^verbatim>\<open>Stop\<close> completes once the channel is closed.  Time is not modelled:
  the timer of a \<^verbatim>\<open>select\<close> may fire at any moment.  One loop, one call of \<^verbatim>\<open>Stop\<close>.
\<close>

datatype listen_at =
    NotStarted            \<comment> \<open>before \<^verbatim>\<open>Start\<close>\<close>
  | Top                   \<comment> \<open>at the head of the \<^verbatim>\<open>for\<close>\<close>
  | Select duration       \<comment> \<open>in the \<^verbatim>\<open>select\<close>, waiting on \<^verbatim>\<open>time.After(interval)\<close> and \<^verbatim>\<open>tdone\<close>\<close>
  | TickPrint             \<comment> \<open>timer case chosen, about to \<^verbatim>\<open>print\<close>\<close>
  | StopPrint             \<comment> \<open>\<^verbatim>\<open>tdone\<close> case chosen, about to \<^verbatim>\<open>print\<close>\<close>
  | Closing               \<comment> \<open>about to \<^verbatim>\<open>close(p.tdone)\<close> and return\<close>
  | Done                  \<comment> \<open>returned\<close>

datatype stop_at =
    NotCalled
  | Sending               \<comment> \<open>blocked in \<^verbatim>\<open>p.tdone <- true\<close>\<close>
  | Receiving             \<comment> \<open>blocked in \<^verbatim>\<open><-p.tdone\<close>\<close>
  | StopReturned

record 'w sys =
  sys_state :: "'w state"
  listener :: listen_at
  stopper :: stop_at
  tdone_closed :: bool

datatype event =
    GoListen                          \<comment> \<open>\<^verbatim>\<open>Start\<close>: \<^verbatim>\<open>go p.Listen()\<close>\<close>
  | ReadInterval                      \<comment> \<open>\<^verbatim>\<open>interval := p.RefreshInterval\<close>, under the lock\<close>
  | TimerFires                        \<comment> \<open>\<^verbatim>\<open>case <-time.After(interval)\<close>\<close>
  | Rendezvous                        \<comment> \<open>\<^verbatim>\<open>case <-p.tdone\<close> meets the send of \<^verbatim>\<open>Stop\<close>\<close>
  | Print terminal Pkg                \<comment> \<open>\<^verbatim>\<open>p.print()\<close>, with the terminal and package variables of that moment\<close>
  | CloseTdone                        \<comment> \<open>\<^verbatim>\<open>close(p.tdone); return\<close>\<close>
  | CallStop                          \<comment> \<open>\<^verbatim>\<open>Stop\<close> is called and starts its send\<close>
  | StopReceives                      \<comment> \<open>\<^verbatim>\<open><-p.tdone\<close> in \<^verbatim>\<open>Stop\<close> completes; \<^verbatim>\<open>Stop\<close> returns\<close>
  | CallSetRefreshInterval duration
  | CallSetOut io_Writer
  | CallAddBar goint

definition step ::
  "('w Bar \<Rightarrow> 'w \<Rightarrow> string \<times> 'w) \<Rightarrow> 'w Bar \<Rightarrow> event \<Rightarrow> 'w sys \<Rightarrow> 'w sys option" where
  "step String dflt ev s =
     (case ev of
        GoListen \<Rightarrow>
          if listener s = NotStarted then Some (s\<lparr>listener := Top\<rparr>) else None
      | ReadInterval \<Rightarrow>
          if listener s = Top
          then Some (s\<lparr>listener := Select (RefreshInterval (prog (sys_state s)))\<rparr>)
          else None
      | TimerFires \<Rightarrow>
          (case listener s of Select interval \<Rightarrow> Some (s\<lparr>listener := TickPrint\<rparr>) | _ \<Rightarrow> None)
      | Rendezvous \<Rightarrow>
          (case listener s of
             Select interval \<Rightarrow>
               if stopper s = Sending
               then Some (s\<lparr>listener := StopPrint, stopper := Receiving\<rparr>)
               else None
           | _ \<Rightarrow> None)
      | Print tm g \<Rightarrow>
          if listener s = TickPrint
          then Some (s\<lparr>sys_state := print String tm g (sys_state s), listener := Top\<rparr>)
          else if listener s = StopPrint
          then Some (s\<lparr>sys_state := print String tm g (sys_state s), listener := Closing\<rparr>)
          else None
      | CloseTdone \<Rightarrow>
          if listener s = Closing
          then Some (s\<lparr>tdone_closed := True, listener := Done\<rparr>)
          else None
      | CallStop \<Rightarrow>
          if stopper s = NotCalled then Some (s\<lparr>stopper := Sending\<rparr>) else None
      | StopReceives \<Rightarrow>
          if stopper s = Receiving \<and> tdone_closed s
          then Some (s\<lparr>stopper := StopReturned\<rparr>)
          else None
      | CallSetRefreshInterval d \<Rightarrow>
          Some (s\<lparr>sys_state := SetRefreshInterval d (sys_state s)\<rparr>)
      | CallSetOut o' \<Rightarrow>
          Some (s\<lparr>sys_state := SetOut o' (sys_state s)\<rparr>)
      | CallAddBar total' \<Rightarrow>
          Some (s\<lparr>sys_state := snd (AddBar dflt total' (sys_state s))\<rparr>))"

fun run ::
  "('w Bar \<Rightarrow> 'w \<Rightarrow> string \<times> 'w) \<Rightarrow> 'w Bar \<Rightarrow> event list \<Rightarrow> 'w sys \<Rightarrow> 'w sys option" where
  "run String dflt [] s = Some s"
| "run String dflt (ev # evs) s =
     (case step String dflt ev s of None \<Rightarrow> None | Some s' \<Rightarrow> run String dflt evs s')"

text \<open>Where a program begins: no loop yet, \<^verbatim>\<open>Stop\<close> not called, and the channel that
  \<^verbatim>\<open>New\<close> made is open.\<close>

definition initial :: "'w sys \<Rightarrow> bool" where
  "initial s \<longleftrightarrow> listener s = NotStarted \<and> stopper s = NotCalled \<and> \<not> tdone_closed s"

fun is_print :: "event \<Rightarrow> bool" where
  "is_print (Print tm g) = True"
| "is_print _ = False"

fun is_rendezvous :: "event \<Rightarrow> bool" where
  "is_rendezvous Rendezvous = True"
| "is_rendezvous _ = False"

fun is_set_interval :: "event \<Rightarrow> bool" where
  "is_set_interval (CallSetRefreshInterval d) = True"
| "is_set_interval _ = False"

text \<open>The number of \<^verbatim>\<open>print\<close> calls of a run that come after the loop received the stop
  signal.\<close>

definition prints_after_stop :: "event list \<Rightarrow> nat" where
  "prints_after_stop evs = length (filter is_print (dropWhile (\<lambda>e. \<not> is_rendezvous e) evs))"

text \<open>The frames flushed so far.\<close>

definition frames :: "'w sys \<Rightarrow> (io_Writer \<times> string list) list" where
  "frames s = lw_flushed (lw (prog (sys_state s)))"

text \<open>The invariant of the handshake, of a run \<open>evs\<close> and the state it has reached.  Until
  the loop has received the stop signal it stands in its cycle and the channel is open;
  from then on it prints once, closes the channel and is done; \<^verbatim>\<open>Stop\<close> has returned
  only when all of that has happened.\<close>

fun in_cycle :: "listen_at \<Rightarrow> bool" where
  "in_cycle NotStarted = True"
| "in_cycle Top = True"
| "in_cycle (Select interval) = True"
| "in_cycle TickPrint = True"
| "in_cycle StopPrint = False"
| "in_cycle Closing = False"
| "in_cycle Done = False"

definition handshake_inv :: "event list \<Rightarrow> 'w sys \<Rightarrow> bool" where
  "handshake_inv evs s =
     (if stopper s = NotCalled \<or> stopper s = Sending
      then in_cycle (listener s) \<and> \<not> tdone_closed s \<and> list_all (\<lambda>e. \<not> is_rendezvous e) evs
      else list_ex is_rendezvous evs \<and>
        (listener s = StopPrint \<and> \<not> tdone_closed s \<and> prints_after_stop evs = 0 \<and>
           stopper s = Receiving \<or>
         listener s = Closing \<and> \<not> tdone_closed s \<and> prints_after_stop evs = 1 \<and>
           stopper s = Receiving \<or>
         listener s = Done \<and> tdone_closed s \<and> prints_after_stop evs = 1))"

text \<open>The steps of the two goroutines themselves, as opposed to the calls other goroutines
  make, and among them the choice of the timer case by the \<^verbatim>\<open>select\<close>.\<close>

fun is_own :: "event \<Rightarrow> bool" where
  "is_own (CallSetRefreshInterval d) = False"
| "is_own (CallSetOut o') = False"
| "is_own (CallAddBar n) = False"
| "is_own _ = True"

fun is_timer :: "event \<Rightarrow> bool" where
  "is_timer TimerFires = True"
| "is_timer _ = False"

text \<open>How many steps of their own the loop and \<^verbatim>\<open>Stop\<close> still have to take until \<^verbatim>\<open>Stop\<close>
  has returned, if the \<^verbatim>\<open>select\<close> takes the \<^verbatim>\<open>tdone\<close> case at its next chance: from the
  head of the loop the read, the rendezvous, the final \<^verbatim>\<open>print\<close>, the \<^verbatim>\<open>close\<close> and the
  receive in \<^verbatim>\<open>Stop\<close>.\<close>

definition steps_to_return :: "'w sys \<Rightarrow> nat" where
  "steps_to_return s =
     (case stopper s of
        StopReturned \<Rightarrow> 0
      | Receiving \<Rightarrow> (case listener s of StopPrint \<Rightarrow> 3 | Closing \<Rightarrow> 2 | _ \<Rightarrow> 1)
      | _ \<Rightarrow> (case listener s of TickPrint \<Rightarrow> 6 | Top \<Rightarrow> 5 | _ \<Rightarrow> 4))"

text \<open>Where the two goroutines can stand once the loop runs and \<^verbatim>\<open>Stop\<close> has been called.\<close>

definition stopping :: "'w sys \<Rightarrow> bool" where
  "stopping s \<longleftrightarrow>
     stopper s = Sending \<and> \<not> tdone_closed s \<and>
       (listener s = Top \<or> (\<exists>interval. listener s = Select interval) \<or> listener s = TickPrint) \<or>
     stopper s = Receiving \<and> \<not> tdone_closed s \<and> (listener s = StopPrint \<or> listener s = Closing) \<or>
     (stopper s = Receiving \<or> stopper s = StopReturned) \<and> tdone_closed s \<and> listener s = Done"

subsection \<open>The quantities the specification speaks of\<close>

text \<open>The strings a list of decorators returns when each is called once, in order.\<close>

fun decorator_strings :: "'w DecoratorFunc list \<Rightarrow> BarSnapshot \<Rightarrow> 'w \<Rightarrow> string list \<times> 'w" where
  "decorator_strings [] b w = ([], w)"
| "decorator_strings (f # fs) b w =
     (case f b w of (s, w') \<Rightarrow>
        (case decorator_strings fs b w' of (ss, w'') \<Rightarrow> (s # ss, w'')))"

text \<open>Total decorator width: each string's length plus one for its separating space.\<close>

definition decorators_total :: "string list \<Rightarrow> int" where
  "decorators_total ss = (\<Sum>s\<leftarrow>ss. int (length s) + 1)"

text \<open>The strings of the decorators of the bar at \<open>a\<close>, prepend then append, in a state.\<close>

definition bar_decorator_strings :: "addr \<Rightarrow> 'w state \<Rightarrow> string list" where
  "bar_decorator_strings a st =
     fst (decorator_strings (Bar_prependFuncs (heap st a) @ Bar_appendFuncs (heap st a))
            (snapshot (heap st a)) (world st))"

text \<open>The state of a tick when the first \<open>i\<close> bars have been handled.\<close>

definition tick_before ::
  "('w Bar \<Rightarrow> 'w \<Rightarrow> string \<times> 'w) \<Rightarrow> terminal \<Rightarrow> Pkg \<Rightarrow> 'w state \<Rightarrow> nat \<Rightarrow> 'w state" where
  "tick_before String tm g st i =
     print_loop String (getTerminalWidth tm g) (take i (Bars (prog st))) st"

text \<open>The line \<^verbatim>\<open>String\<close> returns for the bar at \<open>a\<close> when \<^verbatim>\<open>print\<close> handles it in state
  \<open>st\<close>: the bar carries its newly assigned width, and the world is the one the width
  accounting left.\<close>

definition bar_line ::
  "('w Bar \<Rightarrow> 'w \<Rightarrow> string \<times> 'w) \<Rightarrow> goint \<Rightarrow> addr \<Rightarrow> 'w state \<Rightarrow> string" where
  "bar_line String termWidth a st =
     fst (String (heap (print_bar String termWidth a st) a)
            (snd (decorator_strings (Bar_prependFuncs (heap st a) @ Bar_appendFuncs (heap st a))
                    (snapshot (heap st a)) (world st))))"

definition tick_lines ::
  "('w Bar \<Rightarrow> 'w \<Rightarrow> string \<times> 'w) \<Rightarrow> terminal \<Rightarrow> Pkg \<Rightarrow> 'w state \<Rightarrow> string list" where
  "tick_lines String tm g st =
     map (\<lambda>i. bar_line String (getTerminalWidth tm g) (Bars (prog st) ! i)
                (tick_before String tm g st i))
       [0..<length (Bars (prog st))]"

text \<open>Modelled from the spec: the rendering of a bar, \<^verbatim>\<open>Bar.String\<close>, is declared in
  another file of the package.  The spec: "available width for the literal bar = width
  - sum(len(prepend_i)+1) - sum(len(append_i)+1) - fixed_overhead(percentage_text),
  floored at a minimum usable width (policy: 10 columns).  Fill length =
  floor(available_width * current/total), clamped to [0, available_width] even when
  current > total."\<close>

definition available_width :: "int \<Rightarrow> string list \<Rightarrow> string list \<Rightarrow> int \<Rightarrow> int" where
  "available_width width pre app overhead =
     max 10 (width - decorators_total pre - decorators_total app - overhead)"

definition fill_length :: "int \<Rightarrow> int \<Rightarrow> int \<Rightarrow> int" where
  "fill_length available current total' = max 0 (min available ((available * current) div total'))"

text \<open>Modelled from the spec: \<^verbatim>\<open>Bar.String\<close>.  The spec: decorators are "evaluated at
  render time", and the line is the "prepend decorators (space-joined) + the literal bar
  glyphs (fill/empty) sized to consume remaining width after decorators and a fixed
  percentage field + append decorators (space-joined)".  The glyphs and the percentage
  field are not fixed by the spec: \<open>glyphs\<close> draws them from the available width and
  the fill length, \<open>overhead\<close> is the width of the percentage field.\<close>

definition Bar_String ::
  "(int \<Rightarrow> int \<Rightarrow> string) \<Rightarrow> int \<Rightarrow> 'w Bar \<Rightarrow> 'w \<Rightarrow> string \<times> 'w" where
  "Bar_String glyphs overhead b w =
     (case decorator_strings (Bar_prependFuncs b) (snapshot b) w of (pre, w1) \<Rightarrow>
      case decorator_strings (Bar_appendFuncs b) (snapshot b) w1 of (app, w2) \<Rightarrow>
        let available = available_width (sint (Bar_Width b)) pre app overhead;
            fill = fill_length available (sint (Bar_current b)) (sint (Bar_Total b))
        in (concat (map (\<lambda>s. s @ '' '') pre) @ glyphs available fill @
            concat (map (\<lambda>s. '' '' @ s) app), w2))"

text \<open>A decorator that counts its own calls: \<open>counted k f\<close> behaves as \<open>f\<close> and adds one
  to the counter \<open>k\<close> each time it is evaluated.\<close>

definition counted ::
  "nat \<Rightarrow> 'w DecoratorFunc \<Rightarrow> ('w \<times> (nat \<Rightarrow> nat)) DecoratorFunc" where
  "counted k f = (\<lambda>b (w, c). case f b w of (s, w') \<Rightarrow> (s, (w', c(k := Suc (c k)))))"

definition clamp :: "int \<Rightarrow> int \<Rightarrow> int \<Rightarrow> int" where
  "clamp x lo hi = max lo (min hi x)"

subsection \<open>Example inputs\<close>

text \<open>A package state with the default width 70, a terminal 80 columns wide, a terminal
  whose size cannot be read, and one that reports zero columns.\<close>

definition ex_pkg :: Pkg where
  "ex_pkg = \<lparr>pkg_Out = File 1, pkg_Width = 70, pkg_RefreshInterval = 10000000\<rparr>"

definition ex_term80 :: terminal where
  "ex_term80 = (\<lambda>fd. (80, 24, None))"

definition ex_term_fails :: terminal where
  "ex_term_fails = (\<lambda>fd. (0, 0, Some (Error ''inappropriate ioctl for device'')))"

definition ex_term_zero :: terminal where
  "ex_term_zero = (\<lambda>fd. (0, 0, None))"

text \<open>A bar at 50 of 100 with one prepend and one append decorator, and a container that
  holds it at address 0; the container's own width is 50.\<close>

definition ex_bar :: "unit Bar" where
  "ex_bar = \<lparr>Bar_Total = 100, Bar_current = 50, Bar_Width = 50,
             Bar_prependFuncs = [\<lambda>b w. (''abc'', w)],
             Bar_appendFuncs = [\<lambda>b w. (''50%'', w)]\<rparr>"

definition ex_state :: "unit state" where
  "ex_state = \<lparr>prog = (New ex_pkg)\<lparr>Width := 50, Bars := [0]\<rparr>,
               heap = (\<lambda>a. ex_bar), nxt = 1, world = ()\<rparr>"

text \<open>A rendering that draws nothing, for inputs where the line does not matter.\<close>

definition ex_String :: "unit Bar \<Rightarrow> unit \<Rightarrow> string \<times> unit" where
  "ex_String b w = ([], w)"

text \<open>A program that has not started yet, around the container of the example.\<close>

definition ex_sys :: "unit sys" where
  "ex_sys = \<lparr>sys_state = ex_state, listener = NotStarted, stopper = NotCalled,
             tdone_closed = False\<rparr>"

text \<open>A bar whose one decorator counts its calls in counter 0, in a container of its own;
  bar glyphs \<^verbatim>\<open>=\<close> and \<^verbatim>\<open>-\<close>.\<close>

definition ex_counting_bar :: "(unit \<times> (nat \<Rightarrow> nat)) Bar" where
  "ex_counting_bar = \<lparr>Bar_Total = 100, Bar_current = 50, Bar_Width = 70,
             Bar_prependFuncs = [counted 0 (\<lambda>b w. (''abc'', w))],
             Bar_appendFuncs = []\<rparr>"

definition ex_counting_state :: "(unit \<times> (nat \<Rightarrow> nat)) state" where
  "ex_counting_state = \<lparr>prog = (New ex_pkg)\<lparr>Bars := [0]\<rparr>,
               heap = (\<lambda>a. ex_counting_bar), nxt = 1, world = ((), \<lambda>k. 0)\<rparr>"

definition ex_glyphs :: "int \<Rightarrow> int \<Rightarrow> string" where
  "ex_glyphs available fill =
     replicate (nat fill) CHR ''='' @ replicate (nat (available - fill)) CHR ''-''"

section \<open>Properties\<close>

subsection \<open>Helper lemmas\<close>

lemma decorators_total_simps [simp]:
  "decorators_total [] = 0"
  "decorators_total (s # ss) = int (length s) + 1 + decorators_total ss"
  "decorators_total (ss @ ts) = decorators_total ss + decorators_total ts"
  by (simp_all add: decorators_total_def)

lemma decorators_total_nonneg: "0 \<le> decorators_total ss"
  by (induction ss) simp_all

lemma decorator_strings_append:
  "decorator_strings (fs @ gs) b w =
     (case decorator_strings fs b w of (ss, w') \<Rightarrow>
        (case decorator_strings gs b w' of (ts, w'') \<Rightarrow> (ss @ ts, w'')))"
  by (induction fs arbitrary: w) (auto split: prod.splits)

lemma decoratorsWidth_loop_eq:
  "decoratorsWidth_loop fs b (dw, w) =
     (dw + word_of_int (decorators_total (fst (decorator_strings fs b w))),
      snd (decorator_strings fs b w))"
proof (induction fs arbitrary: dw w)
  case Nil
  show ?case by simp
next
  case (Cons f fs)
  obtain s w' where f: "f b w = (s, w')" by (cases "f b w")
  obtain ss w'' where r: "decorator_strings fs b w' = (ss, w'')"
    by (cases "decorator_strings fs b w'")
  show ?case
    by (simp add: f r Cons.IH algebra_simps)
qed

lemma sint_word_of_int_goint:
  "- (2 ^ 63) \<le> k \<Longrightarrow> k < 2 ^ 63 \<Longrightarrow> sint (word_of_int k :: goint) = k"
  by (simp add: signed_of_int signed_take_bit_int_eq_self)

lemma sint_floor10:
  fixes W :: goint
  assumes "- (2 ^ 63) \<le> sint W - D" and "0 \<le> D"
  shows "sint (if (W - word_of_int D) <s 10 then 10 else W - word_of_int D) = max 10 (sint W - D)"
proof -
  have up: "sint W - D < 2 ^ 63"
    using sint_lt [of W] assms(2) by simp
  have "W - word_of_int D = (word_of_int (sint W - D) :: goint)"
    by simp
  then have "sint (W - word_of_int D) = sint W - D"
    using sint_word_of_int_goint [OF assms(1) up] by (simp only:)
  then show ?thesis
    by (simp add: word_sless_alt max_def)
qed

lemma print_loop_append:
  "print_loop S tw (xs @ ys) st = print_loop S tw ys (print_loop S tw xs st)"
  by (induction xs arbitrary: st) simp_all

lemma tick_before_Suc:
  assumes "i < length (Bars (prog st))"
  shows "tick_before S tm g st (Suc i) =
         print_bar S (getTerminalWidth tm g) (Bars (prog st) ! i) (tick_before S tm g st i)"
  using assms by (simp add: tick_before_def take_Suc_conv_app_nth print_loop_append)

lemma print_bar_heap:
  "heap (print_bar S W a st) a =
     (heap st a)\<lparr>Bar_Width :=
        (let d = word_of_int (decorators_total (bar_decorator_strings a st))
         in if (W - d) <s 10 then 10 else W - d)\<rparr>"
  by (simp add: print_bar_def bar_decorator_strings_def decoratorsWidth_loop_eq
      decorator_strings_append Let_def split: prod.splits)

lemma print_bar_Width:
  assumes "- (2 ^ 63) \<le> sint W - decorators_total (bar_decorator_strings a st)"
  shows "sint (Bar_Width (heap (print_bar S W a st) a)) =
         max 10 (sint W - decorators_total (bar_decorator_strings a st))"
  using sint_floor10 [OF assms decorators_total_nonneg]
  by (simp add: print_bar_heap Let_def)

lemma tick_Width:
  assumes "i < length (Bars (prog st))"
    and "- (2 ^ 63) \<le> sint (getTerminalWidth tm g) -
           decorators_total (bar_decorator_strings (Bars (prog st) ! i) (tick_before S tm g st i))"
  shows "sint (Bar_Width (heap (tick_before S tm g st (Suc i)) (Bars (prog st) ! i))) =
         max 10 (sint (getTerminalWidth tm g) -
           decorators_total (bar_decorator_strings (Bars (prog st) ! i) (tick_before S tm g st i)))"
  using assms(2) by (simp only: tick_before_Suc [OF assms(1)] print_bar_Width)

lemma ex_width_80: "getTerminalWidth ex_term80 ex_pkg = 80"
  by (simp add: getTerminalWidth_def ex_pkg_def ex_term80_def word_sless_alt)

lemma ex_width_fails: "getTerminalWidth ex_term_fails ex_pkg = 70"
  by (simp add: getTerminalWidth_def ex_pkg_def ex_term_fails_def)

lemma ex_Bars: "Bars (prog ex_state) = [0]"
  by (simp add: ex_state_def)

lemma ex_strings:
  "bar_decorator_strings 0 (tick_before ex_String tm g ex_state 0) = [''abc'', ''50%'']"
  by (simp add: bar_decorator_strings_def tick_before_def ex_state_def ex_bar_def snapshot_def)

subsection \<open>Terminal width and the width of a bar\<close>

text \<open>
  C9.  \<^verbatim>\<open>getTerminalWidth\<close> returns the fallback width (the package's \<^verbatim>\<open>Width\<close>) when
  the terminal-size query returns an error, and also when the query succeeds with a
  width of zero or less; it returns the reported width otherwise.  Hence whenever the
  fallback width is positive, the width used for a tick is positive.
\<close>

theorem getTerminalWidth_fallback:
  assumes "tm (Fd (pkg_Out g)) = (width, height, err)"
  shows "getTerminalWidth tm g = (if err \<noteq> None \<or> sint width \<le> 0 then pkg_Width g else width) \<and>
         (0 < sint (pkg_Width g) \<longrightarrow> 0 < sint (getTerminalWidth tm g))"
  using assms by (auto simp: getTerminalWidth_def word_sless_alt)

theorem getTerminalWidth_fallback_witness:
  "getTerminalWidth ex_term_zero ex_pkg = 70 \<and> 0 < sint (getTerminalWidth ex_term_zero ex_pkg)"
proof -
  have h: "ex_term_zero (Fd (pkg_Out ex_pkg)) = (0, 0, None)"
    by (simp add: ex_term_zero_def)
  have p: "0 < sint (pkg_Width ex_pkg)" "pkg_Width ex_pkg = 70"
    by (simp_all add: ex_pkg_def)
  show ?thesis
    using getTerminalWidth_fallback [where tm = ex_term_zero and g = ex_pkg, OF h] p by simp
qed

text \<open>
  C1.  In every tick, for every bar of the container (the \<open>i\<close>-th, handled in the state
  the tick has reached by then): if the terminal width of the tick is \<open>W\<close> and the
  bar's decorators return strings of total width \<open>D\<close> (each length plus one, prepend
  then append), the width assigned to the bar before it is rendered is \<open>max 10 (W - D)\<close>.
  The hypothesis on \<open>W - D\<close> says that the subtraction does not leave the range of Go's
  \<^verbatim>\<open>int\<close>.
\<close>

theorem print_width_law:
  assumes "i < length (Bars (prog st))"
    and "- (2 ^ 63) \<le> sint (getTerminalWidth tm g) -
           decorators_total (bar_decorator_strings (Bars (prog st) ! i) (tick_before String tm g st i))"
  shows "sint (Bar_Width (heap (tick_before String tm g st (Suc i)) (Bars (prog st) ! i))) =
         max 10 (sint (getTerminalWidth tm g) -
           decorators_total (bar_decorator_strings (Bars (prog st) ! i) (tick_before String tm g st i)))"
  using assms by (rule tick_Width)

theorem print_width_law_witness:
  "sint (Bar_Width (heap (tick_before ex_String ex_term80 ex_pkg ex_state (Suc 0)) 0)) = 72"
proof -
  have h1: "0 < length (Bars (prog ex_state))"
    by (simp add: ex_Bars)
  have h2: "- (2 ^ 63) \<le> sint (getTerminalWidth ex_term80 ex_pkg) -
      decorators_total (bar_decorator_strings (Bars (prog ex_state) ! 0)
        (tick_before ex_String ex_term80 ex_pkg ex_state 0))"
    by (simp add: ex_Bars ex_width_80 ex_strings)
  show ?thesis
    using print_width_law [OF h1 h2] by (simp add: ex_Bars ex_width_80 ex_strings)
qed

text \<open>
  C2.  The claim: in a tick in which the terminal size cannot be read, every bar gets a
  width derived from the \<^verbatim>\<open>Width\<close> field of its container.  It fails: the container of
  the example has \<^verbatim>\<open>Width\<close> 50, the package variable \<^verbatim>\<open>Width\<close> is 70, and the bar, whose
  decorators take 8 columns, gets 62, not 42.
\<close>

theorem print_fallback_counterexample:
  "sint (Width (prog ex_state)) = 50 \<and>
   decorators_total (bar_decorator_strings 0 (tick_before ex_String ex_term_fails ex_pkg ex_state 0)) = 8 \<and>
   sint (Bar_Width (heap (tick_before ex_String ex_term_fails ex_pkg ex_state (Suc 0)) 0)) = 62 \<and>
   sint (Bar_Width (heap (tick_before ex_String ex_term_fails ex_pkg ex_state (Suc 0)) 0)) \<noteq>
     max 10 (sint (Width (prog ex_state)) -
       decorators_total (bar_decorator_strings 0 (tick_before ex_String ex_term_fails ex_pkg ex_state 0)))"
proof -
  have h1: "0 < length (Bars (prog ex_state))"
    by (simp add: ex_Bars)
  have h2: "- (2 ^ 63) \<le> sint (getTerminalWidth ex_term_fails ex_pkg) -
      decorators_total (bar_decorator_strings (Bars (prog ex_state) ! 0)
        (tick_before ex_String ex_term_fails ex_pkg ex_state 0))"
    by (simp add: ex_Bars ex_width_fails ex_strings)
  have w: "sint (Width (prog ex_state)) = 50"
    by (simp add: ex_state_def)
  show ?thesis
    using tick_Width [OF h1 h2] by (simp add: ex_Bars ex_width_fails ex_strings w)
qed

text \<open>
  C2, amended.  In a tick in which the terminal size cannot be read, the width of the
  tick is the package variable \<^verbatim>\<open>Width\<close>, whatever the \<^verbatim>\<open>Width\<close> field of the container
  holds, and every bar gets the width \<open>max 10 (Width - D)\<close> derived from it.  \<^verbatim>\<open>print\<close>
  has no error result: the failure reaches no caller.
\<close>

theorem print_fallback_package_width:
  assumes "tm (Fd (pkg_Out g)) = (width, height, Some e)"
    and "i < length (Bars (prog st))"
    and "- (2 ^ 63) \<le> sint (pkg_Width g) -
           decorators_total (bar_decorator_strings (Bars (prog st) ! i) (tick_before String tm g st i))"
  shows "getTerminalWidth tm g = pkg_Width g \<and>
         sint (Bar_Width (heap (tick_before String tm g st (Suc i)) (Bars (prog st) ! i))) =
         max 10 (sint (pkg_Width g) -
           decorators_total (bar_decorator_strings (Bars (prog st) ! i) (tick_before String tm g st i)))"
proof -
  have tw: "getTerminalWidth tm g = pkg_Width g"
    using assms(1) by (simp add: getTerminalWidth_def)
  show ?thesis
    using tick_Width [OF assms(2), of tm g String] assms(3) by (simp add: tw)
qed

theorem print_fallback_package_width_witness:
  "getTerminalWidth ex_term_fails ex_pkg = pkg_Width ex_pkg \<and>
   sint (Bar_Width (heap (tick_before ex_String ex_term_fails ex_pkg ex_state (Suc 0)) 0)) = 62"
proof -
  have h0: "ex_term_fails (Fd (pkg_Out ex_pkg)) =
      (0, 0, Some (Error ''inappropriate ioctl for device''))"
    by (simp add: ex_term_fails_def)
  have h1: "0 < length (Bars (prog ex_state))"
    by (simp add: ex_Bars)
  have p: "pkg_Width ex_pkg = 70"
    by (simp add: ex_pkg_def)
  have h2: "- (2 ^ 63) \<le> sint (pkg_Width ex_pkg) -
      decorators_total (bar_decorator_strings (Bars (prog ex_state) ! 0)
        (tick_before ex_String ex_term_fails ex_pkg ex_state 0))"
    by (simp add: ex_Bars p ex_strings)
  show ?thesis
    using print_fallback_package_width [where tm = ex_term_fails and g = ex_pkg, OF h0 h1 h2] by (simp add: ex_Bars p ex_strings)
qed

text \<open>
  C10.  \<^verbatim>\<open>SetOut(o)\<close> sets the container's \<^verbatim>\<open>Out\<close> and the live writer's \<^verbatim>\<open>Out\<close> to
  \<open>o\<close> and changes nothing else: \<^verbatim>\<open>Bars\<close>, \<^verbatim>\<open>Width\<close> and \<^verbatim>\<open>RefreshInterval\<close>, the
  writer's buffer and history, the bars and the decorators' world are as before.
\<close>

theorem SetOut_frame:
  "Out (prog (SetOut o' st)) = o' \<and>
   lw_Out (lw (prog (SetOut o' st))) = o' \<and>
   Bars (prog (SetOut o' st)) = Bars (prog st) \<and>
   Width (prog (SetOut o' st)) = Width (prog st) \<and>
   RefreshInterval (prog (SetOut o' st)) = RefreshInterval (prog st) \<and>
   lw_buf (lw (prog (SetOut o' st))) = lw_buf (lw (prog st)) \<and>
   lw_flushed (lw (prog (SetOut o' st))) = lw_flushed (lw (prog st)) \<and>
   heap (SetOut o' st) = heap st \<and> nxt (SetOut o' st) = nxt st \<and>
   world (SetOut o' st) = world st"
  by (simp add: SetOut_def)


subsection \<open>The frame of a tick\<close>

lemma accounting_world:
  "snd (decoratorsWidth_loop gs b (decoratorsWidth_loop fs b (dw, w))) =
   snd (decorator_strings (fs @ gs) b w)"
  by (simp add: decoratorsWidth_loop_eq decorator_strings_append split: prod.splits)

lemma print_bar_heap_upd:
  "heap (print_bar S W a st) = (heap st)(a := heap (print_bar S W a st) a)"
  by (simp add: print_bar_def Let_def split: prod.splits)

lemma print_bar_prog:
  "prog (print_bar S W a st) = (prog st)\<lparr>lw := Fprintln (lw (prog st)) (bar_line S W a st)\<rparr>"
proof -
  obtain dw1 w1 where l1:
    "decoratorsWidth_loop (Bar_prependFuncs (heap st a)) (snapshot (heap st a)) (0, world st) = (dw1, w1)"
    by (cases "decoratorsWidth_loop (Bar_prependFuncs (heap st a)) (snapshot (heap st a)) (0, world st)")
  obtain dw w2 where l2:
    "decoratorsWidth_loop (Bar_appendFuncs (heap st a)) (snapshot (heap st a)) (dw1, w1) = (dw, w2)"
    by (cases "decoratorsWidth_loop (Bar_appendFuncs (heap st a)) (snapshot (heap st a)) (dw1, w1)")
  have w2: "snd (decorator_strings (Bar_prependFuncs (heap st a) @ Bar_appendFuncs (heap st a))
                  (snapshot (heap st a)) (world st)) = w2"
    using accounting_world [of "Bar_appendFuncs (heap st a)" "snapshot (heap st a)"
        "Bar_prependFuncs (heap st a)" 0 "world st"]
    by (simp add: l1 l2)
  show ?thesis
    unfolding bar_line_def w2
    by (simp add: print_bar_def Let_def l1 l2 split: prod.splits)
qed

lemma print_loop_prog:
  "prog (print_loop S W as st) =
     (prog st)\<lparr>lw := (lw (prog st))\<lparr>lw_buf := lw_buf (lw (prog st)) @
        map (\<lambda>i. bar_line S W (as ! i) (print_loop S W (take i as) st)) [0..<length as]\<rparr>\<rparr>"
proof (induction as rule: rev_induct)
  case Nil
  show ?case by simp
next
  case (snoc a as)
  have m: "map (\<lambda>i. bar_line S W ((as @ [a]) ! i)
                     (print_loop S W (take (i - length as) [a]) (print_loop S W (take i as) st)))
             [0..<length as] =
           map (\<lambda>i. bar_line S W (as ! i) (print_loop S W (take i as) st)) [0..<length as]"
    by (rule map_cong) (simp_all add: nth_append)
  show ?case
    by (simp add: print_loop_append print_bar_prog snoc.IH m Fprintln_def)
qed

lemma tick_lines_length: "length (tick_lines S tm g st) = length (Bars (prog st))"
  by (simp add: tick_lines_def)

lemma print_prog:
  "prog (print S tm g st) =
     (prog st)\<lparr>lw := (lw (prog st))\<lparr>lw_buf := [],
        lw_flushed := lw_flushed (lw (prog st)) @
          [(lw_Out (lw (prog st)), lw_buf (lw (prog st)) @ tick_lines S tm g st)]\<rparr>\<rparr>"
  by (simp add: print_def Let_def print_loop_prog Flush_def tick_lines_def tick_before_def)

lemma tick_before_flushed:
  "lw_flushed (lw (prog (tick_before S tm g st i))) = lw_flushed (lw (prog st))"
  by (simp add: tick_before_def print_loop_prog)

text \<open>
  C5.  A tick writes one line per bar, in the order of \<^verbatim>\<open>Bars\<close> (the \<open>i\<close>-th line is the
  rendering of the \<open>i\<close>-th bar), flushes nothing while it handles the bars, and ends
  with one flush whose frame holds exactly these \<^verbatim>\<open>len(Bars)\<close> lines; the buffer is
  empty afterwards, as it was before.
\<close>

theorem print_frame:
  assumes "lw_buf (lw (prog st)) = []"
  shows "lw_flushed (lw (prog (print String tm g st))) =
           lw_flushed (lw (prog st)) @ [(lw_Out (lw (prog st)), tick_lines String tm g st)] \<and>
         length (tick_lines String tm g st) = length (Bars (prog st)) \<and>
         (\<forall>i<length (Bars (prog st)). tick_lines String tm g st ! i =
            bar_line String (getTerminalWidth tm g) (Bars (prog st) ! i)
              (tick_before String tm g st i)) \<and>
         (\<forall>i. lw_flushed (lw (prog (tick_before String tm g st i))) = lw_flushed (lw (prog st))) \<and>
         lw_buf (lw (prog (print String tm g st))) = []"
  using assms by (simp add: print_prog tick_lines_length tick_before_flushed) (simp add: tick_lines_def)

lemma ex_lines: "tick_lines ex_String tm g ex_state = [[]]"
  by (simp add: tick_lines_def ex_Bars bar_line_def ex_String_def)

theorem print_frame_witness:
  "lw_flushed (lw (prog (print ex_String ex_term80 ex_pkg ex_state))) = [(FileWriter (File 1), [[]])] \<and>
   length (tick_lines ex_String ex_term80 ex_pkg ex_state) = 1 \<and>
   lw_buf (lw (prog (print ex_String ex_term80 ex_pkg ex_state))) = []"
proof -
  have h: "lw_buf (lw (prog ex_state)) = []"
    by (simp add: ex_state_def New_def)
  have o: "lw_flushed (lw (prog ex_state)) = []" "lw_Out (lw (prog ex_state)) = FileWriter (File 1)"
    by (simp_all add: ex_state_def New_def ex_pkg_def)
  show ?thesis
    using print_frame [OF h, of ex_String ex_term80 ex_pkg] by (simp add: o ex_lines ex_Bars)
qed


subsection \<open>Fill length\<close>

lemma fill_length_clamp:
  assumes "0 < t" and "0 \<le> aw"
  shows "fill_length aw c t = (aw * clamp c 0 t) div t"
    and "0 \<le> fill_length aw c t"
    and "fill_length aw c t \<le> aw"
proof -
  show "0 \<le> fill_length aw c t" by (simp add: fill_length_def)
  show "fill_length aw c t \<le> aw" using assms(2) by (simp add: fill_length_def)
  consider "c < 0" | "0 \<le> c" "c \<le> t" | "t < c" by linarith
  then show "fill_length aw c t = (aw * clamp c 0 t) div t"
  proof cases
    case 1
    then have "aw * c \<le> 0" using assms(2) by (simp add: mult_nonneg_nonpos)
    then have "(aw * c) div t \<le> 0" using assms(1)
      by (simp add: div_nonpos_pos_le0)
    then show ?thesis using 1 assms by (simp add: fill_length_def clamp_def)
  next
    case 2
    have lo: "0 \<le> (aw * c) div t"
      using 2 assms by (simp add: pos_imp_zdiv_nonneg_iff)
    have "aw * c \<le> aw * t" using 2 assms(2) by (simp add: mult_left_mono)
    then have "(aw * c) div t \<le> (aw * t) div t" using assms(1) by (rule zdiv_mono1)
    then have hi: "(aw * c) div t \<le> aw" using assms(1) by simp
    show ?thesis using 2 lo hi assms by (simp add: fill_length_def clamp_def)
  next
    case 3
    have "aw * t \<le> aw * c" using 3 assms(2) by (simp add: mult_left_mono)
    then have "(aw * t) div t \<le> (aw * c) div t" using assms(1) by (rule zdiv_mono1)
    then have "aw \<le> (aw * c) div t" using assms(1) by simp
    then show ?thesis using 3 assms by (simp add: fill_length_def clamp_def)
  qed
qed

lemma available_width_ge: "10 \<le> available_width width pre app overhead"
  by (simp add: available_width_def)

text \<open>
  C6.  For all integers \<open>current\<close> and \<open>total\<close> with \<open>total > 0\<close>, the fill length of a
  bar is \<open>floor (available * clamp current 0 total / total)\<close>, where \<open>available\<close> is the
  available width of the bar; it is never negative and never exceeds the available
  width, also when \<open>current > total\<close> or \<open>current < 0\<close>.
\<close>

theorem fill_length_law:
  assumes "0 < total'"
  shows "fill_length (available_width width pre app overhead) current total' =
           (available_width width pre app overhead * clamp current 0 total') div total' \<and>
         0 \<le> fill_length (available_width width pre app overhead) current total' \<and>
         fill_length (available_width width pre app overhead) current total' \<le>
           available_width width pre app overhead"
proof -
  have "0 \<le> available_width width pre app overhead"
    using available_width_ge [of width pre app overhead] by simp
  from fill_length_clamp [OF assms this] show ?thesis
    by blast
qed

theorem fill_length_law_witness:
  "fill_length (available_width 20 [] [] 0) 50 100 = 10 \<and>
   fill_length (available_width 20 [] [] 0) 150 100 = 20 \<and>
   fill_length (available_width 20 [] [] 0) (- 5) 100 = 0"
proof -
  have h: "(0::int) < 100" by simp
  have a: "available_width 20 [] [] 0 = 20"
    by (simp add: available_width_def)
  show ?thesis
    using fill_length_law [OF h, of 20 "[]" "[]" 0 50]
      fill_length_law [OF h, of 20 "[]" "[]" 0 150]
      fill_length_law [OF h, of 20 "[]" "[]" 0 "- 5"]
    by (simp add: a clamp_def)
qed

subsection \<open>Adding bars\<close>

lemma print_Bars: "Bars (prog (print S tm g st)) = Bars (prog st)"
  by (simp add: print_prog)

lemma step_Bars_prefix:
  assumes "step S dflt ev s = Some s'"
  shows "prefix (Bars (prog (sys_state s))) (Bars (prog (sys_state s')))"
  using assms
  by (cases ev)
    (auto simp: step_def print_Bars SetOut_def SetRefreshInterval_def AddBar_def Let_def
      split: if_splits listen_at.splits)

lemma run_Bars_prefix:
  assumes "run S dflt evs s = Some s'"
  shows "prefix (Bars (prog (sys_state s))) (Bars (prog (sys_state s')))"
  using assms
proof (induction evs arbitrary: s)
  case Nil
  then show ?case by simp
next
  case (Cons ev evs)
  then obtain s1 where s1: "step S dflt ev s = Some s1" and r: "run S dflt evs s1 = Some s'"
    by (auto split: option.splits)
  from step_Bars_prefix [OF s1] Cons.IH [OF r] show ?case
    by (rule prefix_order.trans)
qed

text \<open>
  C8.  \<^verbatim>\<open>AddBar(total)\<close> appends exactly one bar to the end of \<^verbatim>\<open>Bars\<close> and returns it:
  a new one (in a store where the bars of the container were allocated before the next
  free address), with the given total and the container's current \<^verbatim>\<open>Width\<close>, the bars
  already there untouched.  No operation removes or reorders bars: \<^verbatim>\<open>print\<close>, \<^verbatim>\<open>SetOut\<close>
  and \<^verbatim>\<open>SetRefreshInterval\<close> leave \<^verbatim>\<open>Bars\<close> as it is, and over any run of the program
  the \<^verbatim>\<open>Bars\<close> at the start is a prefix of the \<^verbatim>\<open>Bars\<close> at the end.
\<close>

theorem AddBar_appends:
  assumes "\<forall>a\<in>set (Bars (prog st)). a < nxt st"
    and "AddBar dflt total' st = (b, st')"
    and "run String dflt evs s = Some s'"
  shows "Bars (prog st') = Bars (prog st) @ [b] \<and>
         b \<notin> set (Bars (prog st)) \<and>
         Bar_Total (heap st' b) = total' \<and>
         Bar_Width (heap st' b) = Width (prog st) \<and>
         (\<forall>a\<in>set (Bars (prog st)). heap st' a = heap st a) \<and>
         (\<forall>a\<in>set (Bars (prog st')). a < nxt st') \<and>
         Bars (prog (print String tm g st)) = Bars (prog st) \<and>
         Bars (prog (SetOut o' st)) = Bars (prog st) \<and>
         Bars (prog (SetRefreshInterval d st)) = Bars (prog st) \<and>
         prefix (Bars (prog (sys_state s))) (Bars (prog (sys_state s')))"
proof -
  have b: "b = nxt st" and st': "st' = snd (AddBar dflt total' st)"
    using assms(2) by (auto simp: AddBar_def Let_def)
  have "b \<notin> set (Bars (prog st))"
    using assms(1) b by auto
  moreover have "\<forall>a\<in>set (Bars (prog st)). heap st' a = heap st a"
    using assms(1) by (auto simp: st' AddBar_def Let_def)
  moreover have "\<forall>a\<in>set (Bars (prog st')). a < nxt st'"
    using assms(1) by (auto simp: st' AddBar_def Let_def less_Suc_eq)
  moreover have "Bars (prog st') = Bars (prog st) @ [b]"
    "Bar_Total (heap st' b) = total'" "Bar_Width (heap st' b) = Width (prog st)"
    by (simp_all add: st' b AddBar_def Let_def NewBar_def)
  ultimately show ?thesis
    using run_Bars_prefix [OF assms(3)]
    by (simp add: print_Bars SetOut_def SetRefreshInterval_def)
qed

theorem AddBar_appends_witness:
  "fst (AddBar ex_bar 200 ex_state) = 1 \<and>
   Bars (prog (snd (AddBar ex_bar 200 ex_state))) = [0, 1] \<and>
   Bar_Total (heap (snd (AddBar ex_bar 200 ex_state)) 1) = 200 \<and>
   Bar_Width (heap (snd (AddBar ex_bar 200 ex_state)) 1) = 50 \<and>
   heap (snd (AddBar ex_bar 200 ex_state)) 0 = heap ex_state 0 \<and>
   prefix [0] (Bars (prog (sys_state (the (run ex_String ex_bar [CallAddBar 200] ex_sys)))))"
proof -
  have h1: "\<forall>a\<in>set (Bars (prog ex_state)). a < nxt ex_state"
    by (simp add: ex_state_def)
  have h2: "AddBar ex_bar 200 ex_state = (1, snd (AddBar ex_bar 200 ex_state))"
    by (simp add: AddBar_def Let_def ex_state_def)
  have h3: "run ex_String ex_bar [CallAddBar 200] ex_sys =
      Some (ex_sys\<lparr>sys_state := snd (AddBar ex_bar 200 ex_state)\<rparr>)"
    by (simp add: step_def ex_sys_def)
  have w: "Width (prog ex_state) = 50" "sys_state ex_sys = ex_state"
    by (simp_all add: ex_state_def ex_sys_def)
  have f: "fst (AddBar ex_bar 200 ex_state) = 1"
    by (simp add: AddBar_def Let_def ex_state_def)
  show ?thesis
    unfolding h3 option.sel
    using AddBar_appends [OF h1 h2 h3, of ex_term80 ex_pkg "OtherWriter 0" 5] f
    by (simp add: ex_Bars w)
qed


subsection \<open>How often a decorator is evaluated\<close>

lemma counted_strings_aux:
  "decorator_strings (map (\<lambda>(k, f). counted k f) kfs) b (w, c) = (ss, (w', c')) \<Longrightarrow>
     c' k = c k + count_list (map fst kfs) k"
proof (induction kfs arbitrary: w c ss w' c')
  case Nil
  then show ?case by simp
next
  case (Cons kf kfs)
  obtain k' f where kf: "kf = (k', f)" by (cases kf)
  obtain s w1 where f: "f b w = (s, w1)" by (cases "f b w")
  define c1 where "c1 = c(k' := Suc (c k'))"
  obtain ss1 w2 c2 where r:
    "decorator_strings (map (\<lambda>(k, f). counted k f) kfs) b (w1, c1) = (ss1, (w2, c2))"
    by (cases "decorator_strings (map (\<lambda>(k, f). counted k f) kfs) b (w1, c1)") auto
  have hd: "counted k' f b (w, c) = (s, (w1, c1))"
    by (simp add: counted_def f c1_def)
  have "decorator_strings (map (\<lambda>(k, f). counted k f) (kf # kfs)) b (w, c) = (s # ss1, (w2, c2))"
    by (simp add: kf hd r)
  with Cons.prems have c': "c' = c2" by simp
  have "c2 k = c1 k + count_list (map fst kfs) k"
    using r by (rule Cons.IH)
  then show ?case
    by (simp add: c' c1_def kf)
qed

lemma counted_strings:
  "snd (snd (decorator_strings (map (\<lambda>(k, f). counted k f) kfs) b (w, c))) k =
     c k + count_list (map fst kfs) k"
proof -
  obtain ss w' c' where r:
    "decorator_strings (map (\<lambda>(k, f). counted k f) kfs) b (w, c) = (ss, (w', c'))"
    by (cases "decorator_strings (map (\<lambda>(k, f). counted k f) kfs) b (w, c)") auto
  from counted_strings_aux [OF r] show ?thesis
    by (simp only: r snd_conv)
qed

lemma Bar_String_world:
  "snd (Bar_String glyphs overhead b w) =
     snd (decorator_strings (Bar_prependFuncs b @ Bar_appendFuncs b) (snapshot b) w)"
  by (simp add: Bar_String_def decorator_strings_append Let_def split: prod.splits)

lemma print_bar_world:
  "world (print_bar S W a st) =
     snd (S (heap (print_bar S W a st) a)
            (snd (decorator_strings (Bar_prependFuncs (heap st a) @ Bar_appendFuncs (heap st a))
                    (snapshot (heap st a)) (world st))))"
proof -
  obtain dw1 w1 where l1:
    "decoratorsWidth_loop (Bar_prependFuncs (heap st a)) (snapshot (heap st a)) (0, world st) = (dw1, w1)"
    by (cases "decoratorsWidth_loop (Bar_prependFuncs (heap st a)) (snapshot (heap st a)) (0, world st)")
  obtain dw w2 where l2:
    "decoratorsWidth_loop (Bar_appendFuncs (heap st a)) (snapshot (heap st a)) (dw1, w1) = (dw, w2)"
    by (cases "decoratorsWidth_loop (Bar_appendFuncs (heap st a)) (snapshot (heap st a)) (dw1, w1)")
  have w2: "snd (decorator_strings (Bar_prependFuncs (heap st a) @ Bar_appendFuncs (heap st a))
                  (snapshot (heap st a)) (world st)) = w2"
    using accounting_world [of "Bar_appendFuncs (heap st a)" "snapshot (heap st a)"
        "Bar_prependFuncs (heap st a)" 0 "world st"]
    by (simp add: l1 l2)
  show ?thesis
    unfolding w2
    by (simp add: print_bar_def Let_def l1 l2 split: prod.splits)
qed

lemma print_bar_funcs:
  "Bar_prependFuncs (heap (print_bar S W a st) a) = Bar_prependFuncs (heap st a)"
  "Bar_appendFuncs (heap (print_bar S W a st) a) = Bar_appendFuncs (heap st a)"
  by (simp_all add: print_bar_heap)

lemma print_bar_counted:
  assumes "Bar_prependFuncs (heap st a) = map (\<lambda>(k, f). counted k f) ps"
    and "Bar_appendFuncs (heap st a) = map (\<lambda>(k, f). counted k f) qs"
  shows "snd (world (print_bar (Bar_String glyphs overhead) W a st)) k =
         snd (world st) k + 2 * count_list (map fst (ps @ qs)) k"
proof -
  define fs where "fs = map (\<lambda>(k, f). counted k f) (ps @ qs)"
  define b' where "b' = heap (print_bar (Bar_String glyphs overhead) W a st) a"
  have fs: "Bar_prependFuncs (heap st a) @ Bar_appendFuncs (heap st a) = fs"
    "Bar_prependFuncs b' @ Bar_appendFuncs b' = fs"
    by (simp_all add: fs_def b'_def print_bar_funcs assms)
  obtain w c where wc: "world st = (w, c)" by (cases "world st")
  obtain ss w1 c1 where d1: "decorator_strings fs (snapshot (heap st a)) (w, c) = (ss, (w1, c1))"
    by (cases "decorator_strings fs (snapshot (heap st a)) (w, c)") auto
  obtain ss' w2 c2 where d2: "decorator_strings fs (snapshot b') (w1, c1) = (ss', (w2, c2))"
    by (cases "decorator_strings fs (snapshot b') (w1, c1)") auto
  have c1: "c1 k = c k + count_list (map fst (ps @ qs)) k"
    using d1 unfolding fs_def by (rule counted_strings_aux)
  have c2: "c2 k = c1 k + count_list (map fst (ps @ qs)) k"
    using d2 unfolding fs_def by (rule counted_strings_aux)
  have "world (print_bar (Bar_String glyphs overhead) W a st) =
        snd (Bar_String glyphs overhead b'
          (snd (decorator_strings fs (snapshot (heap st a)) (world st))))"
    unfolding b'_def fs(1) [symmetric] by (rule print_bar_world)
  also have "\<dots> = snd (decorator_strings fs (snapshot b') (w1, c1))"
    by (simp only: Bar_String_world fs(2) wc d1 snd_conv)
  finally have "world (print_bar (Bar_String glyphs overhead) W a st) = (w2, c2)"
    by (simp only: d2 snd_conv)
  then show ?thesis
    by (simp add: wc c1 c2)
qed

lemma print_world:
  "world (print S tm g st) = world (tick_before S tm g st (length (Bars (prog st))))"
  by (simp add: print_def Let_def tick_before_def)

lemma ex_counting_Bars: "Bars (prog ex_counting_state) = [0]"
  by (simp add: ex_counting_state_def)

text \<open>
  C3.  The claim: in a tick, each decorator of each bar is evaluated exactly once.  It
  fails with the rendering the spec describes, which evaluates the decorators at render
  time: \<^verbatim>\<open>print\<close> calls each decorator for its length and drops the string, and
  \<^verbatim>\<open>bar.String()\<close>, which is given the bar alone, calls it again.  The one decorator of
  the example counts its calls: after one tick it has been called twice.
\<close>

theorem decorators_once_counterexample:
  "snd (world ex_counting_state) 0 = 0 \<and>
   snd (world (print (Bar_String ex_glyphs 0) ex_term80 ex_pkg ex_counting_state)) 0 = 2 \<and>
   snd (world (print (Bar_String ex_glyphs 0) ex_term80 ex_pkg ex_counting_state)) 0 \<noteq>
     snd (world ex_counting_state) 0 + 1"
proof -
  have p: "Bar_prependFuncs (heap ex_counting_state 0) =
      map (\<lambda>(k, f). counted k f) [(0, \<lambda>b w. (''abc'', w))]"
    and q: "Bar_appendFuncs (heap ex_counting_state 0) = map (\<lambda>(k, f). counted k f) []"
    by (simp_all add: ex_counting_state_def ex_counting_bar_def)
  have z: "snd (world ex_counting_state) 0 = 0"
    by (simp add: ex_counting_state_def)
  have "world (print (Bar_String ex_glyphs 0) ex_term80 ex_pkg ex_counting_state) =
        world (print_bar (Bar_String ex_glyphs 0) (getTerminalWidth ex_term80 ex_pkg) 0 ex_counting_state)"
    by (simp add: print_def Let_def ex_counting_Bars)
  then show ?thesis
    using print_bar_counted [OF p q, of ex_glyphs 0 "getTerminalWidth ex_term80 ex_pkg" 0]
    by (simp add: z)
qed

text \<open>
  C3, amended.  In a tick, \<^verbatim>\<open>print\<close> evaluates each decorator of each bar exactly once for
  the width accounting and uses only the length of its string; the line is rendered by
  \<^verbatim>\<open>bar.String()\<close>, which evaluates each decorator once more.  With decorators that
  count their calls: handling one bar adds, to every counter, twice the number of the
  bar's decorators that count in it.
\<close>

theorem decorators_twice:
  assumes "i < length (Bars (prog st))"
    and "Bar_prependFuncs (heap (tick_before (Bar_String glyphs overhead) tm g st i) (Bars (prog st) ! i)) =
           map (\<lambda>(k, f). counted k f) ps"
    and "Bar_appendFuncs (heap (tick_before (Bar_String glyphs overhead) tm g st i) (Bars (prog st) ! i)) =
           map (\<lambda>(k, f). counted k f) qs"
  shows "snd (world (tick_before (Bar_String glyphs overhead) tm g st (Suc i))) k =
         snd (world (tick_before (Bar_String glyphs overhead) tm g st i)) k +
           2 * count_list (map fst (ps @ qs)) k"
  by (simp only: tick_before_Suc [OF assms(1)] print_bar_counted [OF assms(2,3)])

theorem decorators_twice_witness:
  "snd (world (tick_before (Bar_String ex_glyphs 0) ex_term80 ex_pkg ex_counting_state (Suc 0))) 0 = 2"
proof -
  have t0: "tick_before (Bar_String ex_glyphs 0) ex_term80 ex_pkg ex_counting_state 0 = ex_counting_state"
    by (simp add: tick_before_def)
  have h1: "0 < length (Bars (prog ex_counting_state))"
    by (simp add: ex_counting_Bars)
  have p: "Bar_prependFuncs (heap (tick_before (Bar_String ex_glyphs 0) ex_term80 ex_pkg ex_counting_state 0)
        (Bars (prog ex_counting_state) ! 0)) =
      map (\<lambda>(k, f). counted k f) [(0, \<lambda>b w. (''abc'', w))]"
    and q: "Bar_appendFuncs (heap (tick_before (Bar_String ex_glyphs 0) ex_term80 ex_pkg ex_counting_state 0)
        (Bars (prog ex_counting_state) ! 0)) = map (\<lambda>(k, f). counted k f) []"
    unfolding t0 by (simp_all add: ex_counting_state_def ex_counting_bar_def)
  have z: "snd (world ex_counting_state) 0 = 0"
    by (simp add: ex_counting_state_def)
  show ?thesis
    using decorators_twice [OF h1 p q, of 0] by (simp add: t0 z)
qed


subsection \<open>Runs of the loop\<close>

lemma run_append:
  "run S d (xs @ ys) s = (case run S d xs s of None \<Rightarrow> None | Some s' \<Rightarrow> run S d ys s')"
  by (induction xs arbitrary: s) (simp_all split: option.splits)

lemma prints_after_stop_before:
  assumes "list_all (\<lambda>e. \<not> is_rendezvous e) evs"
  shows "prints_after_stop (evs @ evs') = prints_after_stop evs'"
  using assms by (simp add: prints_after_stop_def list_all_iff)

lemma prints_after_stop_after:
  assumes "list_ex is_rendezvous evs"
  shows "prints_after_stop (evs @ [ev]) = prints_after_stop evs + (if is_print ev then 1 else 0)"
proof -
  from assms obtain e where "e \<in> set evs" "\<not> \<not> is_rendezvous e"
    by (auto simp: list_ex_iff)
  then have "dropWhile (\<lambda>e. \<not> is_rendezvous e) (evs @ [ev]) =
             dropWhile (\<lambda>e. \<not> is_rendezvous e) evs @ [ev]"
    by (rule dropWhile_append1)
  then show ?thesis
    by (simp add: prints_after_stop_def)
qed

lemma handshake_inv_initial: "initial s \<Longrightarrow> handshake_inv [] s"
  by (simp add: initial_def handshake_inv_def)

lemma step_control:
  assumes "step S d ev s = Some s'"
  shows "(listener s', stopper s', tdone_closed s') =
     (case ev of
        GoListen \<Rightarrow> (Top, stopper s, tdone_closed s)
      | ReadInterval \<Rightarrow> (Select (RefreshInterval (prog (sys_state s))), stopper s, tdone_closed s)
      | TimerFires \<Rightarrow> (TickPrint, stopper s, tdone_closed s)
      | Rendezvous \<Rightarrow> (StopPrint, Receiving, tdone_closed s)
      | Print tm g \<Rightarrow> (if listener s = TickPrint then Top else Closing, stopper s, tdone_closed s)
      | CloseTdone \<Rightarrow> (Done, stopper s, True)
      | CallStop \<Rightarrow> (listener s, Sending, tdone_closed s)
      | StopReceives \<Rightarrow> (listener s, StopReturned, tdone_closed s)
      | _ \<Rightarrow> (listener s, stopper s, tdone_closed s))"
  using assms by (cases ev) (auto simp: step_def split: if_splits listen_at.splits)

lemma step_enabled:
  assumes "step S d ev s = Some s'"
  shows "(case ev of
        GoListen \<Rightarrow> listener s = NotStarted
      | ReadInterval \<Rightarrow> listener s = Top
      | TimerFires \<Rightarrow> (\<exists>i. listener s = Select i)
      | Rendezvous \<Rightarrow> (\<exists>i. listener s = Select i) \<and> stopper s = Sending
      | Print tm g \<Rightarrow> listener s = TickPrint \<or> listener s = StopPrint
      | CloseTdone \<Rightarrow> listener s = Closing
      | CallStop \<Rightarrow> stopper s = NotCalled
      | StopReceives \<Rightarrow> stopper s = Receiving \<and> tdone_closed s
      | _ \<Rightarrow> True)"
  using assms by (cases ev) (auto simp: step_def split: if_splits listen_at.splits)

lemma prints_after_stop_snoc_before:
  assumes "list_all (\<lambda>e. \<not> is_rendezvous e) evs"
  shows "prints_after_stop (evs @ [ev]) = 0"
  using prints_after_stop_before [OF assms, of "[ev]"]
  by (cases ev) (simp_all add: prints_after_stop_def)

lemma handshake_inv_step_before:
  assumes "stopper s = NotCalled \<or> stopper s = Sending"
    and "in_cycle (listener s)" and "\<not> tdone_closed s"
    and "list_all (\<lambda>e. \<not> is_rendezvous e) evs"
    and "step S d ev s = Some s'"
  shows "handshake_inv (evs @ [ev]) s'"
proof -
  note z = prints_after_stop_snoc_before [OF assms(4)]
  from step_control [OF assms(5)] step_enabled [OF assms(5)] assms(1-4) show ?thesis
    by (cases ev) (auto simp: handshake_inv_def z)
qed

lemma handshake_inv_step_after:
  assumes "list_ex is_rendezvous evs"
    and "listener s = StopPrint \<and> \<not> tdone_closed s \<and> prints_after_stop evs = 0 \<and>
           stopper s = Receiving \<or>
         listener s = Closing \<and> \<not> tdone_closed s \<and> prints_after_stop evs = 1 \<and>
           stopper s = Receiving \<or>
         listener s = Done \<and> tdone_closed s \<and> prints_after_stop evs = 1 \<and>
           (stopper s = Receiving \<or> stopper s = StopReturned)"
    and "step S d ev s = Some s'"
  shows "handshake_inv (evs @ [ev]) s'"
proof -
  note p = prints_after_stop_after [OF assms(1)]
  from step_control [OF assms(3)] step_enabled [OF assms(3)] assms(1,2) show ?thesis
    by (cases ev) (auto simp: handshake_inv_def p)
qed

lemma handshake_inv_step:
  assumes "handshake_inv evs s" and "step S d ev s = Some s'"
  shows "handshake_inv (evs @ [ev]) s'"
proof (cases "stopper s = NotCalled \<or> stopper s = Sending")
  case True
  with assms(1) have "in_cycle (listener s)" "\<not> tdone_closed s"
    "list_all (\<lambda>e. \<not> is_rendezvous e) evs"
    by (simp_all add: handshake_inv_def)
  with True show ?thesis
    using assms(2) by (rule handshake_inv_step_before)
next
  case False
  with assms(1) have r: "list_ex is_rendezvous evs"
    and c: "listener s = StopPrint \<and> \<not> tdone_closed s \<and> prints_after_stop evs = 0 \<and>
           stopper s = Receiving \<or>
         listener s = Closing \<and> \<not> tdone_closed s \<and> prints_after_stop evs = 1 \<and>
           stopper s = Receiving \<or>
         listener s = Done \<and> tdone_closed s \<and> prints_after_stop evs = 1"
    by (simp_all add: handshake_inv_def)
  from False have t: "stopper s = Receiving \<or> stopper s = StopReturned"
    by (cases "stopper s") simp_all
  have "listener s = StopPrint \<and> \<not> tdone_closed s \<and> prints_after_stop evs = 0 \<and>
           stopper s = Receiving \<or>
         listener s = Closing \<and> \<not> tdone_closed s \<and> prints_after_stop evs = 1 \<and>
           stopper s = Receiving \<or>
         listener s = Done \<and> tdone_closed s \<and> prints_after_stop evs = 1 \<and>
           (stopper s = Receiving \<or> stopper s = StopReturned)"
    using c t by blast
  with r show ?thesis
    using assms(2) by (rule handshake_inv_step_after)
qed

lemma handshake_inv_run:
  assumes "handshake_inv evs0 s0" and "run S d evs s0 = Some s"
  shows "handshake_inv (evs0 @ evs) s"
  using assms
proof (induction evs arbitrary: evs0 s0)
  case Nil
  then show ?case by simp
next
  case (Cons ev evs)
  from Cons.prems(2) obtain s1 where s1: "step S d ev s0 = Some s1"
    and r: "run S d evs s1 = Some s"
    by (auto split: option.splits)
  from Cons.IH [OF handshake_inv_step [OF Cons.prems(1) s1] r] show ?case
    by simp
qed

lemma run_Cons3:
  "run S d [e1, e2, e3, e4] s =
     (case step S d e1 s of None \<Rightarrow> None
      | Some s1 \<Rightarrow> (case run S d [e2, e3] s1 of None \<Rightarrow> None | Some s2 \<Rightarrow> step S d e4 s2))"
  by (simp split: option.splits)

lemma Done_step:
  assumes "listener s = Done" and "step S d ev s = Some s'"
  shows "listener s' = Done \<and> \<not> is_print ev \<and> frames s' = frames s"
  using assms
  by (cases ev)
    (auto simp: step_def frames_def SetOut_def SetRefreshInterval_def AddBar_def Let_def
      split: if_splits)

lemma Done_run:
  assumes "listener s = Done" and "run S d evs s = Some s'"
  shows "listener s' = Done \<and> filter is_print evs = [] \<and> frames s' = frames s"
  using assms
proof (induction evs arbitrary: s)
  case Nil
  then show ?case by simp
next
  case (Cons ev evs)
  from Cons.prems(2) obtain s1 where s1: "step S d ev s = Some s1"
    and r: "run S d evs s1 = Some s'"
    by (auto split: option.splits)
  from Done_step [OF Cons.prems(1) s1] Cons.IH [OF _ r] show ?case
    by simp
qed

lemma finish_from_Select:
  assumes "listener s = Select interval" and "stopper s = Sending"
  shows "\<exists>s1. run S d [Rendezvous, Print tm g, CloseTdone, StopReceives] s = Some s1 \<and>
              stopper s1 = StopReturned"
  using assms by (simp add: step_def)

lemma finish_from_Top:
  assumes "listener s = Top" and "stopper s = Sending"
  shows "\<exists>s1. run S d [ReadInterval, Rendezvous, Print tm g, CloseTdone, StopReceives] s = Some s1 \<and>
              stopper s1 = StopReturned"
  using assms by (simp add: step_def)

lemma finish_from_TickPrint:
  assumes "listener s = TickPrint" and "stopper s = Sending"
  shows "\<exists>s1. run S d [Print tm g, ReadInterval, Rendezvous, Print tm g, CloseTdone, StopReceives] s =
                 Some s1 \<and> stopper s1 = StopReturned"
  using assms by (simp add: step_def)

lemma can_finish:
  assumes "in_cycle (listener s)" and "listener s \<noteq> NotStarted" and "stopper s = Sending"
  shows "\<exists>evs1 s1. length evs1 \<le> 6 \<and> run S d evs1 s = Some s1 \<and> stopper s1 = StopReturned"
proof (cases "listener s")
  case Top
  from finish_from_Top [OF this assms(3), of S d ex_term80 ex_pkg]
  obtain s1 where "run S d [ReadInterval, Rendezvous, Print ex_term80 ex_pkg,
      CloseTdone, StopReceives] s = Some s1 \<and> stopper s1 = StopReturned" ..
  then show ?thesis
    by (intro exI [of _ "[ReadInterval, Rendezvous, Print ex_term80 ex_pkg,
      CloseTdone, StopReceives]"] exI [of _ s1]) simp
next
  case (Select interval)
  from finish_from_Select [OF this assms(3), of S d ex_term80 ex_pkg]
  obtain s1 where "run S d [Rendezvous, Print ex_term80 ex_pkg,
      CloseTdone, StopReceives] s = Some s1 \<and> stopper s1 = StopReturned" ..
  then show ?thesis
    by (intro exI [of _ "[Rendezvous, Print ex_term80 ex_pkg,
      CloseTdone, StopReceives]"] exI [of _ s1]) simp
next
  case TickPrint
  from finish_from_TickPrint [OF this assms(3), of S d ex_term80 ex_pkg]
  obtain s1 where "run S d [Print ex_term80 ex_pkg, ReadInterval, Rendezvous,
      Print ex_term80 ex_pkg, CloseTdone, StopReceives] s = Some s1 \<and>
      stopper s1 = StopReturned" ..
  then show ?thesis
    by (intro exI [of _ "[Print ex_term80 ex_pkg, ReadInterval, Rendezvous,
      Print ex_term80 ex_pkg, CloseTdone, StopReceives]"] exI [of _ s1]) simp
qed (use assms in simp_all)

lemma stopping_step:
  assumes "stopping s" and "step S d ev s = Some s'"
  shows "stopping s'"
  using step_control [OF assms(2)] step_enabled [OF assms(2)] assms(1)
  by (cases ev) (auto simp: stopping_def)

lemma stopping_run:
  assumes "stopping s" and "run S d evs s = Some s'"
  shows "stopping s'"
  using assms
proof (induction evs arbitrary: s)
  case Nil
  then show ?case by simp
next
  case (Cons ev evs)
  from Cons.prems(2) obtain s1 where s1: "step S d ev s = Some s1"
    and r: "run S d evs s1 = Some s'"
    by (auto split: option.splits)
  from Cons.IH [OF stopping_step [OF Cons.prems(1) s1] r] show ?case .
qed

lemma account_step:
  assumes "stopping s" and "step S d ev s = Some s'"
  shows "(if is_own ev then 1 else 0) + steps_to_return s' =
         steps_to_return s + (if is_timer ev then 3 else 0)"
  using step_control [OF assms(2)] step_enabled [OF assms(2)] assms(1)
  by (cases ev) (auto simp: stopping_def steps_to_return_def)

lemma account_run:
  assumes "stopping s" and "run S d evs s = Some s'"
  shows "length (filter is_own evs) + steps_to_return s' =
         steps_to_return s + 3 * length (filter is_timer evs)"
  using assms
proof (induction evs arbitrary: s)
  case Nil
  then show ?case by simp
next
  case (Cons ev evs)
  from Cons.prems(2) obtain s1 where s1: "step S d ev s = Some s1"
    and r: "run S d evs s1 = Some s'"
    by (auto split: option.splits)
  from Cons.IH [OF stopping_step [OF Cons.prems(1) s1] r] account_step [OF Cons.prems(1) s1]
  show ?case
    by (simp split: if_splits)
qed

lemma stopping_returned:
  assumes "stopping s"
  shows "stopper s = StopReturned \<longleftrightarrow> steps_to_return s = 0"
  using assms by (auto simp: stopping_def steps_to_return_def)

lemma steps_to_return_le: "steps_to_return s \<le> 6"
  by (simp add: steps_to_return_def split: stop_at.splits listen_at.splits)

lemma never_blocked:
  assumes "stopping s" and "stopper s \<noteq> StopReturned"
  shows "\<exists>ev s'. is_own ev \<and> \<not> is_timer ev \<and> step S d ev s = Some s'"
proof -
  from assms consider
    (top) "listener s = Top" |
    (sel) interval where "listener s = Select interval" "stopper s = Sending" |
    (prt) "listener s = TickPrint \<or> listener s = StopPrint" |
    (cls) "listener s = Closing" |
    (rcv) "stopper s = Receiving" "tdone_closed s"
    by (auto simp: stopping_def)
  then show ?thesis
  proof cases
    case top
    then have "is_own ReadInterval \<and> \<not> is_timer ReadInterval \<and>
        step S d ReadInterval s = Some (s\<lparr>listener := Select (RefreshInterval (prog (sys_state s)))\<rparr>)"
      by (simp add: step_def)
    then show ?thesis by blast
  next
    case sel
    then have "is_own Rendezvous \<and> \<not> is_timer Rendezvous \<and>
        step S d Rendezvous s = Some (s\<lparr>listener := StopPrint, stopper := Receiving\<rparr>)"
      by (simp add: step_def)
    then show ?thesis by blast
  next
    case prt
    then have "is_own (Print ex_term80 ex_pkg) \<and> \<not> is_timer (Print ex_term80 ex_pkg) \<and>
        (\<exists>s'. step S d (Print ex_term80 ex_pkg) s = Some s')"
      by (auto simp: step_def)
    then show ?thesis by blast
  next
    case cls
    then have "is_own CloseTdone \<and> \<not> is_timer CloseTdone \<and>
        step S d CloseTdone s = Some (s\<lparr>tdone_closed := True, listener := Done\<rparr>)"
      by (simp add: step_def)
    then show ?thesis by blast
  next
    case rcv
    then have "is_own StopReceives \<and> \<not> is_timer StopReceives \<and>
        step S d StopReceives s = Some (s\<lparr>stopper := StopReturned\<rparr>)"
      by (simp add: step_def)
    then show ?thesis by blast
  qed
qed

lemma step_frames:
  assumes "step S d ev s = Some s'" and "\<not> is_print ev"
  shows "frames s' = frames s"
  using assms
  by (cases ev)
    (auto simp: step_def frames_def SetOut_def SetRefreshInterval_def AddBar_def Let_def
      split: if_splits listen_at.splits)

lemma run_frames:
  assumes "run S d evs s = Some s'" and "filter is_print evs = []"
  shows "frames s' = frames s"
  using assms
proof (induction evs arbitrary: s)
  case Nil
  then show ?case by simp
next
  case (Cons ev evs)
  from Cons.prems(1) obtain s1 where s1: "step S d ev s = Some s1"
    and r: "run S d evs s1 = Some s'"
    by (auto split: option.splits)
  from Cons.prems(2) have np: "\<not> is_print ev" "filter is_print evs = []"
    by (auto split: if_splits)
  from step_frames [OF s1 np(1)] Cons.IH [OF r np(2)] show ?case
    by simp
qed

lemma print_step_frames:
  assumes "step S d (Print tm g) s = Some s'"
  shows "frames s' = frames s @
           [(lw_Out (lw (prog (sys_state s))),
             lw_buf (lw (prog (sys_state s))) @ tick_lines S tm g (sys_state s))]"
  using assms by (auto simp: step_def frames_def print_prog split: if_splits)

lemma final_print_shape:
  assumes "list_ex is_rendezvous evs" and "prints_after_stop evs = 1"
  obtains pre mid tm g post where "evs = pre @ Rendezvous # mid @ Print tm g # post"
    and "list_all (\<lambda>e. \<not> is_rendezvous e) pre"
    and "filter is_print mid = []" and "filter is_print post = []"
proof -
  define pre where "pre = takeWhile (\<lambda>e. \<not> is_rendezvous e) evs"
  define rest where "rest = dropWhile (\<lambda>e. \<not> is_rendezvous e) evs"
  have evs: "evs = pre @ rest"
    by (simp add: pre_def rest_def)
  have pre: "list_all (\<lambda>e. \<not> is_rendezvous e) pre"
    by (auto simp: pre_def list_all_iff dest: set_takeWhileD)
  from assms(1) have "rest \<noteq> []"
    by (auto simp: rest_def list_ex_iff)
  then obtain r rest' where rest: "rest = r # rest'"
    by (cases rest) auto
  have "is_rendezvous r"
    using hd_dropWhile [of "\<lambda>e. \<not> is_rendezvous e" evs] \<open>rest \<noteq> []\<close>
    by (simp add: rest_def [symmetric] rest)
  then have r: "r = Rendezvous"
    by (cases r) simp_all
  from assms(2) have "length (filter is_print rest') = 1"
    by (simp add: prints_after_stop_def rest_def [symmetric] rest r)
  then obtain p where "filter is_print rest' = [p]"
    by (cases "filter is_print rest'") auto
  then obtain mid post where shape: "rest' = mid @ p # post" "\<forall>u\<in>set mid. \<not> is_print u"
    "is_print p" "filter is_print post = []"
    by (auto simp: filter_eq_Cons_iff)
  from shape(3) obtain tm g where p: "p = Print tm g"
    by (cases p) simp_all
  from shape(2) have "filter is_print mid = []"
    by (simp add: filter_empty_conv)
  with evs rest r shape(1,4) p pre show ?thesis
    by (intro that [of pre mid tm g post]) simp_all
qed

lemma run_split_final:
  assumes "run S d (pre @ Rendezvous # mid @ Print tm g # post) s = Some s1"
  obtains sb sc sd where "run S d (pre @ [Rendezvous]) s = Some sb"
    and "run S d mid sb = Some sc" and "step S d (Print tm g) sc = Some sd"
    and "run S d post sd = Some s1"
proof -
  have "pre @ Rendezvous # mid @ Print tm g # post = (pre @ [Rendezvous]) @ mid @ (Print tm g # post)"
    by simp
  with assms have "run S d ((pre @ [Rendezvous]) @ mid @ (Print tm g # post)) s = Some s1"
    by (simp only:)
  then obtain sb where sb: "run S d (pre @ [Rendezvous]) s = Some sb"
    and r1: "run S d (mid @ (Print tm g # post)) sb = Some s1"
    by (simp only: run_append [of S d "pre @ [Rendezvous]"] split: option.splits) auto
  from r1 obtain sc where sc: "run S d mid sb = Some sc"
    and r2: "run S d (Print tm g # post) sc = Some s1"
    by (simp only: run_append [of S d mid] split: option.splits) auto
  from r2 obtain sd where sd: "step S d (Print tm g) sc = Some sd"
    and r3: "run S d post sd = Some s1"
    by (auto split: option.splits)
  from sb sc sd r3 show ?thesis
    by (rule that)
qed

lemma stopping_from_inv:
  assumes "handshake_inv evs s" and "listener s \<noteq> NotStarted" and "stopper s = Sending"
  shows "stopping s"
  using assms by (cases "listener s") (simp_all add: handshake_inv_def stopping_def)

text \<open>
  C4.  Once \<^verbatim>\<open>Start\<close> has launched the loop and \<^verbatim>\<open>Stop\<close> has been called (it stands in
  its send), in every run of the program from there:
  \<^item> \<^verbatim>\<open>Stop\<close> can return, within six steps;
  \<^item> the loop and \<^verbatim>\<open>Stop\<close> are never blocked before \<^verbatim>\<open>Stop\<close> has returned, and the steps
    they take are counted exactly: \<^verbatim>\<open>Stop\<close> has returned when they have taken the at most
    six steps that lead from the state of the call to the return, and three more for
    every time the \<^verbatim>\<open>select\<close> took the timer case instead of the stop signal; no call of
    another goroutine adds to that;
  \<^item> whenever \<^verbatim>\<open>Stop\<close> has returned, the run has this shape: the rendezvous, then exactly
    one \<^verbatim>\<open>print\<close>, with no other \<^verbatim>\<open>print\<close> after the rendezvous; no frame is flushed
    between the rendezvous and that \<^verbatim>\<open>print\<close>; the \<^verbatim>\<open>print\<close> flushes exactly one frame,
    the lines of all bars as they stand then; the loop has closed the channel and has
    returned; and whatever the program does afterwards, no \<^verbatim>\<open>print\<close> happens and the
    flushed frames stay as they are.
\<close>

theorem stop_handshake:
  assumes "initial s0"
    and "run String dflt evs s0 = Some s"
    and "listener s \<noteq> NotStarted"
    and "stopper s = Sending"
  shows "(\<exists>evs' s'. length evs' \<le> 6 \<and> run String dflt evs' s = Some s' \<and>
            stopper s' = StopReturned) \<and>
         (run String dflt evs1 s = Some s1 \<longrightarrow>
            length (filter is_own evs1) + steps_to_return s1 =
              steps_to_return s + 3 * length (filter is_timer evs1) \<and>
            steps_to_return s \<le> 6 \<and>
            (stopper s1 = StopReturned \<longleftrightarrow> steps_to_return s1 = 0) \<and>
            (stopper s1 \<noteq> StopReturned \<longrightarrow>
               (\<exists>ev s'. is_own ev \<and> \<not> is_timer ev \<and> step String dflt ev s1 = Some s'))) \<and>
         (run String dflt evs1 s = Some s1 \<and> stopper s1 = StopReturned \<and>
          run String dflt evs2 s1 = Some s2 \<longrightarrow>
            list_ex is_rendezvous evs1 \<and> prints_after_stop evs1 = 1 \<and>
            listener s1 = Done \<and> tdone_closed s1 \<and>
            filter is_print evs2 = [] \<and> frames s2 = frames s1 \<and> listener s2 = Done \<and>
            (\<exists>pre mid tm g post sb sc.
               evs1 = pre @ Rendezvous # mid @ Print tm g # post \<and>
               list_all (\<lambda>e. \<not> is_rendezvous e) pre \<and>
               filter is_print mid = [] \<and> filter is_print post = [] \<and>
               run String dflt (pre @ [Rendezvous]) s = Some sb \<and>
               run String dflt mid sb = Some sc \<and>
               frames sc = frames sb \<and>
               frames s1 = frames sb @
                 [(lw_Out (lw (prog (sys_state sc))),
                   lw_buf (lw (prog (sys_state sc))) @ tick_lines String tm g (sys_state sc))]))"
proof -
  have inv: "handshake_inv evs s"
    using handshake_inv_run [OF handshake_inv_initial [OF assms(1)] assms(2)] by simp
  with assms(4) have c: "in_cycle (listener s)" "list_all (\<lambda>e. \<not> is_rendezvous e) evs"
    by (simp_all add: handshake_inv_def)
  have st: "stopping s"
    using inv assms(3,4) by (rule stopping_from_inv)
  have part1: "\<exists>evs' s'. length evs' \<le> 6 \<and> run String dflt evs' s = Some s' \<and>
      stopper s' = StopReturned"
    using c(1) assms(3,4) by (rule can_finish)
  have part2: "length (filter is_own evs1) + steps_to_return s1 =
              steps_to_return s + 3 * length (filter is_timer evs1) \<and>
            steps_to_return s \<le> 6 \<and>
            (stopper s1 = StopReturned \<longleftrightarrow> steps_to_return s1 = 0) \<and>
            (stopper s1 \<noteq> StopReturned \<longrightarrow>
               (\<exists>ev s'. is_own ev \<and> \<not> is_timer ev \<and> step String dflt ev s1 = Some s'))"
    if r1: "run String dflt evs1 s = Some s1"
  proof -
    have st1: "stopping s1"
      using st r1 by (rule stopping_run)
    from account_run [OF st r1] steps_to_return_le [of s] stopping_returned [OF st1]
      never_blocked [OF st1, of String dflt]
    show ?thesis by blast
  qed
  have part3: "list_ex is_rendezvous evs1 \<and> prints_after_stop evs1 = 1 \<and>
            listener s1 = Done \<and> tdone_closed s1 \<and>
            filter is_print evs2 = [] \<and> frames s2 = frames s1 \<and> listener s2 = Done \<and>
            (\<exists>pre mid tm g post sb sc.
               evs1 = pre @ Rendezvous # mid @ Print tm g # post \<and>
               list_all (\<lambda>e. \<not> is_rendezvous e) pre \<and>
               filter is_print mid = [] \<and> filter is_print post = [] \<and>
               run String dflt (pre @ [Rendezvous]) s = Some sb \<and>
               run String dflt mid sb = Some sc \<and>
               frames sc = frames sb \<and>
               frames s1 = frames sb @
                 [(lw_Out (lw (prog (sys_state sc))),
                   lw_buf (lw (prog (sys_state sc))) @ tick_lines String tm g (sys_state sc))])"
    if r1: "run String dflt evs1 s = Some s1" and ret: "stopper s1 = StopReturned"
      and r2: "run String dflt evs2 s1 = Some s2"
  proof -
    have "handshake_inv (evs @ evs1) s1"
      using inv r1 by (rule handshake_inv_run)
    with ret have *: "list_ex is_rendezvous (evs @ evs1)" "listener s1 = Done" "tdone_closed s1"
      "prints_after_stop (evs @ evs1) = 1"
      by (auto simp: handshake_inv_def)
    from *(1) c(2) have rdv: "list_ex is_rendezvous evs1"
      by (auto simp: list_ex_iff list_all_iff)
    from *(4) have one: "prints_after_stop evs1 = 1"
      by (simp add: prints_after_stop_before [OF c(2)])
    from rdv one obtain pre mid tm g post
      where shape: "evs1 = pre @ Rendezvous # mid @ Print tm g # post"
        and pre: "list_all (\<lambda>e. \<not> is_rendezvous e) pre"
        and mid: "filter is_print mid = []" and post: "filter is_print post = []"
      by (rule final_print_shape)
    from r1 obtain sb sc sd where sb: "run String dflt (pre @ [Rendezvous]) s = Some sb"
      and sc: "run String dflt mid sb = Some sc"
      and sd: "step String dflt (Print tm g) sc = Some sd"
      and s1: "run String dflt post sd = Some s1"
      unfolding shape by (rule run_split_final)
    have f1: "frames sc = frames sb"
      using sc mid by (rule run_frames)
    have f2: "frames s1 = frames sd"
      using s1 post by (rule run_frames)
    have "frames s1 = frames sb @
        [(lw_Out (lw (prog (sys_state sc))),
          lw_buf (lw (prog (sys_state sc))) @ tick_lines String tm g (sys_state sc))]"
      using print_step_frames [OF sd] f1 f2 by simp
    with shape pre mid post sb sc f1 have "\<exists>pre mid tm g post sb sc.
               evs1 = pre @ Rendezvous # mid @ Print tm g # post \<and>
               list_all (\<lambda>e. \<not> is_rendezvous e) pre \<and>
               filter is_print mid = [] \<and> filter is_print post = [] \<and>
               run String dflt (pre @ [Rendezvous]) s = Some sb \<and>
               run String dflt mid sb = Some sc \<and>
               frames sc = frames sb \<and>
               frames s1 = frames sb @
                 [(lw_Out (lw (prog (sys_state sc))),
                   lw_buf (lw (prog (sys_state sc))) @ tick_lines String tm g (sys_state sc))]"
      by blast
    with rdv one * Done_run [OF *(2) r2] show ?thesis
      by simp
  qed
  from part1 part2 part3 show ?thesis
    by blast
qed

theorem stop_handshake_witness:
  "prints_after_stop [TimerFires, Print ex_term80 ex_pkg, ReadInterval, Rendezvous,
      Print ex_term80 ex_pkg, CloseTdone, StopReceives] = 1 \<and>
   filter is_print [CallAddBar 5, CallSetOut (OtherWriter 0)] = [] \<and>
   (\<exists>evs' s'. length evs' \<le> 6 \<and>
      run ex_String ex_bar evs' (ex_sys\<lparr>listener := Select 10000000, stopper := Sending\<rparr>) = Some s' \<and>
      stopper s' = StopReturned) \<and>
   length (filter is_own [TimerFires, Print ex_term80 ex_pkg, ReadInterval, Rendezvous,
      Print ex_term80 ex_pkg, CloseTdone, StopReceives]) =
     steps_to_return (ex_sys\<lparr>listener := Select 10000000, stopper := Sending\<rparr>) +
     3 * length (filter is_timer [TimerFires, Print ex_term80 ex_pkg, ReadInterval, Rendezvous,
      Print ex_term80 ex_pkg, CloseTdone, StopReceives]) \<and>
   (\<exists>pre mid tm g post sb sc.
      [TimerFires, Print ex_term80 ex_pkg, ReadInterval, Rendezvous,
        Print ex_term80 ex_pkg, CloseTdone, StopReceives] = pre @ Rendezvous # mid @ Print tm g # post \<and>
      run ex_String ex_bar (pre @ [Rendezvous])
        (ex_sys\<lparr>listener := Select 10000000, stopper := Sending\<rparr>) = Some sb \<and>
      run ex_String ex_bar mid sb = Some sc \<and>
      frames (the (run ex_String ex_bar [TimerFires, Print ex_term80 ex_pkg, ReadInterval, Rendezvous,
        Print ex_term80 ex_pkg, CloseTdone, StopReceives]
        (ex_sys\<lparr>listener := Select 10000000, stopper := Sending\<rparr>))) =
      frames sb @ [(lw_Out (lw (prog (sys_state sc))),
        lw_buf (lw (prog (sys_state sc))) @ tick_lines ex_String tm g (sys_state sc))]) \<and>
   length (frames (the (run ex_String ex_bar [TimerFires, Print ex_term80 ex_pkg, ReadInterval, Rendezvous,
        Print ex_term80 ex_pkg, CloseTdone, StopReceives]
        (ex_sys\<lparr>listener := Select 10000000, stopper := Sending\<rparr>)))) = 2"
proof -
  define E where "E = [TimerFires, Print ex_term80 ex_pkg, ReadInterval, Rendezvous,
      Print ex_term80 ex_pkg, CloseTdone, StopReceives]"
  define sA where "sA = ex_sys\<lparr>listener := Select 10000000, stopper := Sending\<rparr>"
  define sB where "sB = the (run ex_String ex_bar E sA)"
  define sC where "sC = the (run ex_String ex_bar [CallAddBar 5, CallSetOut (OtherWriter 0)] sB)"
  have h1: "initial ex_sys"
    by (simp add: initial_def ex_sys_def)
  have h2: "run ex_String ex_bar [GoListen, ReadInterval, CallStop] ex_sys = Some sA"
    by (simp add: step_def ex_sys_def sA_def ex_state_def New_def ex_pkg_def)
  have h3: "listener sA \<noteq> NotStarted" and h4: "stopper sA = Sending"
    by (simp_all add: sA_def)
  have r1: "run ex_String ex_bar E sA = Some sB"
    unfolding sB_def E_def by (simp add: step_def sA_def)
  have ret: "stopper sB = StopReturned"
    unfolding sB_def E_def by (simp add: step_def sA_def)
  have r2: "run ex_String ex_bar [CallAddBar 5, CallSetOut (OtherWriter 0)] sB = Some sC"
    unfolding sC_def by (simp add: step_def)
  have two: "length (frames sB) = 2"
    unfolding sB_def E_def
    by (simp add: step_def sA_def frames_def print_prog ex_sys_def ex_state_def New_def)
  note T = stop_handshake [OF h1 h2 h3 h4, of E sB "[CallAddBar 5, CallSetOut (OtherWriter 0)]" sC]
  from T have ex: "\<exists>evs' s'. length evs' \<le> 6 \<and> run ex_String ex_bar evs' sA = Some s' \<and>
      stopper s' = StopReturned"
    by blast
  from T r1 have acc: "length (filter is_own E) + steps_to_return sB =
      steps_to_return sA + 3 * length (filter is_timer E)"
    and z: "stopper sB = StopReturned \<longleftrightarrow> steps_to_return sB = 0"
    by blast+
  from acc z ret have own: "length (filter is_own E) = steps_to_return sA + 3 * length (filter is_timer E)"
    by simp
  from T r1 ret r2 have safe: "prints_after_stop E = 1"
    "filter is_print [CallAddBar 5, CallSetOut (OtherWriter 0)] = []"
    and shape: "\<exists>pre mid tm g post sb sc.
               E = pre @ Rendezvous # mid @ Print tm g # post \<and>
               list_all (\<lambda>e. \<not> is_rendezvous e) pre \<and>
               filter is_print mid = [] \<and> filter is_print post = [] \<and>
               run ex_String ex_bar (pre @ [Rendezvous]) sA = Some sb \<and>
               run ex_String ex_bar mid sb = Some sc \<and>
               frames sc = frames sb \<and>
               frames sB = frames sb @
                 [(lw_Out (lw (prog (sys_state sc))),
                   lw_buf (lw (prog (sys_state sc))) @ tick_lines ex_String tm g (sys_state sc))]"
    by blast+
  from shape have shape': "\<exists>pre mid tm g post sb sc.
      E = pre @ Rendezvous # mid @ Print tm g # post \<and>
      run ex_String ex_bar (pre @ [Rendezvous]) sA = Some sb \<and>
      run ex_String ex_bar mid sb = Some sc \<and>
      frames sB = frames sb @ [(lw_Out (lw (prog (sys_state sc))),
        lw_buf (lw (prog (sys_state sc))) @ tick_lines ex_String tm g (sys_state sc))]"
    by blast
  from safe ex own shape' two show ?thesis
    unfolding sB_def sA_def E_def by blast
qed

subsection \<open>The refresh interval\<close>

lemma step_keeps_interval:
  assumes "step S d ev s = Some s'" and "\<not> is_set_interval ev"
  shows "RefreshInterval (prog (sys_state s')) = RefreshInterval (prog (sys_state s))"
  using assms
  by (cases ev)
    (auto simp: step_def print_prog SetOut_def AddBar_def Let_def
      split: if_splits listen_at.splits)

lemma run_keeps_interval:
  assumes "run S d evs s = Some s'" and "list_all (\<lambda>e. \<not> is_set_interval e) evs"
  shows "RefreshInterval (prog (sys_state s')) = RefreshInterval (prog (sys_state s))"
  using assms
proof (induction evs arbitrary: s)
  case Nil
  then show ?case by simp
next
  case (Cons ev evs)
  from Cons.prems(1) obtain s1 where s1: "step S d ev s = Some s1"
    and r: "run S d evs s1 = Some s'"
    by (auto split: option.splits)
  from Cons.prems(2) have "\<not> is_set_interval ev" "list_all (\<lambda>e. \<not> is_set_interval e) evs"
    by simp_all
  with step_keeps_interval [OF s1] Cons.IH [OF r] show ?case
    by simp
qed

lemma enter_Select:
  assumes "step S d ev s = Some s'" and "listener s' = Select i" and "listener s \<noteq> listener s'"
  shows "ev = ReadInterval \<and> listener s = Top \<and> i = RefreshInterval (prog (sys_state s))"
  using assms
  by (cases ev) (auto simp: step_def split: if_splits listen_at.splits)

text \<open>
  C7.  The loop enters the sleep of an iteration only by reading \<^verbatim>\<open>RefreshInterval\<close> at
  the head of the iteration, in one step under the lock.  So after
  \<^verbatim>\<open>SetRefreshInterval(x)\<close>, which leaves the loop where it stands (a sleep in flight
  keeps its duration), every later step that brings the loop into a sleep, with no other
  \<^verbatim>\<open>SetRefreshInterval\<close> in between, is that read and sleeps for \<open>x\<close>.
\<close>

theorem interval_reread:
  assumes "step String dflt (CallSetRefreshInterval x) s = Some s1"
    and "run String dflt evs s1 = Some s2"
    and "list_all (\<lambda>e. \<not> is_set_interval e) evs"
    and "step String dflt ev s2 = Some s3"
    and "listener s3 = Select i"
    and "listener s2 \<noteq> listener s3"
  shows "listener s1 = listener s \<and> ev = ReadInterval \<and> listener s2 = Top \<and> i = x"
proof -
  have s1: "listener s1 = listener s" "RefreshInterval (prog (sys_state s1)) = x"
    using assms(1) by (auto simp: step_def SetRefreshInterval_def)
  have "RefreshInterval (prog (sys_state s2)) = x"
    using run_keeps_interval [OF assms(2,3)] s1(2) by simp
  with enter_Select [OF assms(4,5,6)] s1(1) show ?thesis
    by simp
qed

theorem interval_reread_witness:
  "listener (the (step ex_String ex_bar (CallSetRefreshInterval 1000000000)
      (ex_sys\<lparr>listener := Select 10000000\<rparr>))) = Select 10000000 \<and>
   listener (the (run ex_String ex_bar
      [CallSetRefreshInterval 1000000000, TimerFires, Print ex_term80 ex_pkg, ReadInterval]
      (ex_sys\<lparr>listener := Select 10000000\<rparr>))) = Select 1000000000"
proof -
  define s where "s = ex_sys\<lparr>listener := Select 10000000\<rparr>"
  define s1 where "s1 = the (step ex_String ex_bar (CallSetRefreshInterval 1000000000) s)"
  define s2 where "s2 = the (run ex_String ex_bar [TimerFires, Print ex_term80 ex_pkg] s1)"
  define s3 where "s3 = the (step ex_String ex_bar ReadInterval s2)"
  have a1: "step ex_String ex_bar (CallSetRefreshInterval 1000000000) s = Some s1"
    unfolding s1_def by (simp add: step_def)
  have l1: "listener s1 = Select 10000000"
    unfolding s1_def by (simp add: step_def s_def)
  have a2: "run ex_String ex_bar [TimerFires, Print ex_term80 ex_pkg] s1 = Some s2"
    unfolding s2_def using l1 by (simp add: step_def)
  have l2: "listener s2 = Top"
    unfolding s2_def using l1 by (simp add: step_def)
  have a3: "list_all (\<lambda>e. \<not> is_set_interval e) [TimerFires, Print ex_term80 ex_pkg]"
    by simp
  have a4: "step ex_String ex_bar ReadInterval s2 = Some s3"
    unfolding s3_def using l2 by (simp add: step_def)
  obtain i where a5: "listener s3 = Select i"
    unfolding s3_def using l2 by (simp add: step_def)
  have a6: "listener s2 \<noteq> listener s3"
    using l2 a5 by simp
  have whole: "run ex_String ex_bar
      [CallSetRefreshInterval 1000000000, TimerFires, Print ex_term80 ex_pkg, ReadInterval] s = Some s3"
    by (simp only: run_Cons3 a1 a2 a4 option.case)
  show ?thesis
    using interval_reread [OF a1 a2 a3 a4 a5 a6] a5 a1 whole l1
    unfolding s_def [symmetric] by simp
qed


end
